theory Spec2Isabelle
  imports Complex_Main "HOL-Library.Multiset"
begin

section \<open>JavaScript values used by the contest model\<close>

text \<open>
  A JavaScript number is an IEEE 754 double: a finite value, an infinity or \<open>NaN\<close>.  A
  finite value is carried as a rational (the two zeros are not told apart: \<open>+\<close>, \<open>*\<close>,
  \<open><=\<close>, \<open>===\<close> and truthiness do not tell them apart either).  A rational that is not
  itself a double stands for the double nearest to it, as a numeric literal does: the
  arithmetic rounds its operands before it uses them, which leaves a double as it is
  (\<open>round_to_double_idem\<close>).  \<open>undefined\<close> is \<open>None\<close> of an option type wherever a
  property may be absent.

  Instants are whole numbers: seconds of an \<open>ObjectID\<close>, milliseconds of a \<open>Date\<close>.
  The source divides the milliseconds by 1000, subtracts and rounds down with
  \<open>Math.floor\<close>; on the instants that a \<open>Date\<close> can hold the doubles in between are
  precise enough for the result to be the floor of the exact quotient or difference, and
  this is what the model computes.
\<close>

datatype jsnum = Num rat | PosInf | NegInf | NaN

text \<open>
  Rounding to the nearest double, ties to even.  \<open>bit_length n\<close> is the number of binary
  digits of a positive integer, \<open>ilog2 x\<close> the exponent of the power of two at or below a
  positive rational.  A double has 53 significant bits and an exponent of at least
  \<open>-1074\<close> for its last bit: \<open>round_magnitude a\<close> rounds the positive rational \<open>a\<close>
  to a multiple of the power of two that its last bit stands for.  A magnitude that rounds
  to \<open>2 ^ 1024\<close> or more (its \<open>ilog2\<close> is at least 1024) is an infinity.
\<close>

definition pow2 :: "int \<Rightarrow> rat" where
  "pow2 e = (if 0 \<le> e then 2 ^ nat e else 1 / 2 ^ nat (- e))"

function bit_length :: "int \<Rightarrow> int" where
  "bit_length n = (if n \<le> 0 then 0 else 1 + bit_length (n div 2))"
  by auto
termination
  by (relation "measure nat") auto

declare bit_length.simps [simp del]

definition ilog2 :: "rat \<Rightarrow> int" where
  "ilog2 x = (if 1 \<le> x then bit_length \<lfloor>x\<rfloor> - 1
              else - bit_length (\<lceil>1 / x\<rceil> - 1))"

definition round_half_even :: "rat \<Rightarrow> int" where
  "round_half_even x =
     (let f = \<lfloor>x\<rfloor>; d = x - of_int f
      in if d < 1 / 2 then f else if 1 / 2 < d then f + 1 else if even f then f else f + 1)"

definition round_magnitude :: "rat \<Rightarrow> rat" where
  "round_magnitude a =
     (let e = max (ilog2 a - 52) (- 1074)
      in of_int (round_half_even (a / pow2 e)) * pow2 e)"

definition round_to_double :: "rat \<Rightarrow> jsnum" where
  "round_to_double x =
     (if x = 0 then Num 0
      else (let y = round_magnitude \<bar>x\<bar>
            in if 1024 \<le> ilog2 y then (if 0 < x then PosInf else NegInf)
               else Num (if 0 < x then y else - y)))"

text \<open>
  An integer of magnitude up to \<open>2 ^ 53\<close> is a double, so rounding returns it as it is;
  \<open>to_double\<close> says so directly and is \<open>round_to_double\<close> otherwise
  (\<open>to_double_round\<close>: the two are the same function).
\<close>

definition exact_integer :: "rat \<Rightarrow> bool" where
  "exact_integer x \<longleftrightarrow> of_int \<lfloor>x\<rfloor> = x \<and> \<bar>x\<bar> \<le> 9007199254740992"

definition to_double :: "rat \<Rightarrow> jsnum" where
  "to_double x = (if exact_integer x then Num x else round_to_double x)"

text \<open>The double that a number stands for.\<close>

fun canon :: "jsnum \<Rightarrow> jsnum" where
  "canon (Num a) = to_double a"
| "canon PosInf = PosInf"
| "canon NegInf = NegInf"
| "canon NaN = NaN"

text \<open>
  \<open>x + y\<close> and \<open>x * y\<close> on doubles: the exact result, rounded; \<open>NaN\<close> is contagious,
  opposite infinities add up to \<open>NaN\<close> and an infinity times zero is \<open>NaN\<close>.
\<close>

fun dbl_add :: "jsnum \<Rightarrow> jsnum \<Rightarrow> jsnum" where
  "dbl_add (Num a) (Num b) = to_double (a + b)"
| "dbl_add NaN y = NaN"
| "dbl_add x NaN = NaN"
| "dbl_add PosInf NegInf = NaN"
| "dbl_add NegInf PosInf = NaN"
| "dbl_add PosInf y = PosInf"
| "dbl_add NegInf y = NegInf"
| "dbl_add (Num a) y = y"

definition js_add :: "jsnum \<Rightarrow> jsnum \<Rightarrow> jsnum" where
  "js_add x y = dbl_add (canon x) (canon y)"

fun dbl_sign :: "jsnum \<Rightarrow> int" where
  "dbl_sign (Num a) = (if 0 < a then 1 else if a < 0 then - 1 else 0)"
| "dbl_sign PosInf = 1"
| "dbl_sign NegInf = - 1"
| "dbl_sign NaN = 0"

fun dbl_mul :: "jsnum \<Rightarrow> jsnum \<Rightarrow> jsnum" where
  "dbl_mul (Num a) (Num b) = to_double (a * b)"
| "dbl_mul NaN y = NaN"
| "dbl_mul x NaN = NaN"
| "dbl_mul x y =
     (if dbl_sign x * dbl_sign y = 0 then NaN
      else if 0 < dbl_sign x * dbl_sign y then PosInf else NegInf)"

definition js_mul :: "jsnum \<Rightarrow> jsnum \<Rightarrow> jsnum" where
  "js_mul x y = dbl_mul (canon x) (canon y)"

text \<open>\<open>ToNumber\<close> of a possibly absent number: \<open>undefined\<close> becomes \<open>NaN\<close>.\<close>

fun to_number :: "nat option \<Rightarrow> jsnum" where
  "to_number None = NaN"
| "to_number (Some n) = Num (of_nat n)"

text \<open>\<open>ToNumber\<close> of a boolean, as in \<open>accept += d.accept\<close>.\<close>

definition bool_to_number :: "bool \<Rightarrow> jsnum" where
  "bool_to_number b = (if b then Num 1 else Num 0)"

text \<open>
  A plain object keyed by problem ids is an association list in insertion order.
  Assigning to an existing key keeps its position; \<open>for (k in obj)\<close> visits the keys
  that are array indices first, in ascending order, then the others in insertion order.
\<close>

type_synonym 'v jsobj = "(int \<times> 'v) list"

definition obj_get :: "'v jsobj \<Rightarrow> int \<Rightarrow> 'v option" where
  "obj_get obj k = map_of obj k"

definition obj_set :: "'v jsobj \<Rightarrow> int \<Rightarrow> 'v \<Rightarrow> 'v jsobj" where
  "obj_set obj k v =
     (if k \<in> fst ` set obj
      then map (\<lambda>(k', v'). if k' = k then (k', v) else (k', v')) obj
      else obj @ [(k, v)])"

definition is_array_index :: "int \<Rightarrow> bool" where
  "is_array_index k \<longleftrightarrow> 0 \<le> k \<and> k < 4294967295"

definition obj_entries :: "'v jsobj \<Rightarrow> (int \<times> 'v) list" where
  "obj_entries obj =
     sort_key fst (filter (\<lambda>e. is_array_index (fst e)) obj) @
     filter (\<lambda>e. \<not> is_array_index (fst e)) obj"

section \<open>Data model\<close>

text \<open>
  An \<open>ObjectID\<close> carries its creation instant in seconds (\<open>generationTime\<close>); the
  remaining bytes of the identifier are kept as one number.
\<close>

record ObjectID =
  generationTime :: int
  rest :: nat

text \<open>A journal entry, as pushed by \<open>updateStatus\<close>: \<open>{ rid, pid, accept, score }\<close>.\<close>

record jdoc =
  rid :: ObjectID
  pid :: int
  accept :: bool
  score :: rat

text \<open>
  The contest record.  \<open>beginAt\<close>, \<open>endAt\<close> and \<open>penaltySince\<close> are
  \<open>Date.getTime()\<close> values (milliseconds), \<open>penaltySince\<close> being optional;
  \<open>penaltyRules\<close> maps an hour threshold to a score multiplier; \<open>t_attend\<close> is the
  contest's attendance counter (the property \<open>attend\<close> of the contest document).
  Exceptions of the source are values of type \<open>error\<close>.

  \<open>penaltyRules\<close> is a plain object.  A property name \<open>k\<close> of it enters the code
  only through \<open>parseFloat(k)\<close> and through the lookup \<open>tdoc.penaltyRules[i]\<close>, which
  turns the number \<open>i\<close> back into a property name and so finds the property whose name
  is the canonical spelling of \<open>i\<close>.  A property name is therefore represented by the
  number it parses to and by whether it is the canonical spelling of that number (\<open>'1'\<close>
  is, \<open>'1.0'\<close> and \<open>'01'\<close> are not); the properties are listed in the order of the
  object.
\<close>

record rule_key =
  parsed :: jsnum
  canonical :: bool

datatype error =
    TypeError
  | ContestNotFoundError
  | ContestAlreadyAttendedError
  | ContestNotAttendedError

datatype rule_name = RuleAcm | RuleOi | RuleHomework

record tdoc =
  rule :: rule_name
  pids :: "int list"
  beginAt :: int
  endAt :: int
  penaltySince :: "int option"
  penaltyRules :: "(rule_key \<times> rat) list"
  t_attend :: nat

section \<open>ACM/ICPC: \<open>acm.stat\<close>\<close>

text \<open>A detail item of the ACM rule: \<open>{ ...j, naccept: naccept[j.pid], time: _time(j) }\<close>.\<close>

record acm_detail = jdoc +
  naccept :: "nat option"
  time :: jsnum

record acm_stats =
  acm_accept :: jsnum
  acm_time :: jsnum
  acm_detail :: "acm_detail list"

text \<open>The first loop of \<open>acm.stat\<close>: the state is the pair \<open>(naccept, effective)\<close>.\<close>

definition acm_step :: "tdoc \<Rightarrow> nat jsobj \<times> jdoc jsobj \<Rightarrow> jdoc \<Rightarrow> nat jsobj \<times> jdoc jsobj" where
  "acm_step t st j =
     (let (nacc, effective) = st in
      if pid j \<in> set (pids t)
         \<and> \<not> (case obj_get effective (pid j) of None \<Rightarrow> False | Some e \<Rightarrow> accept e)
      then (if \<not> accept j
            then obj_set nacc (pid j)
                   ((case obj_get nacc (pid j) of None \<Rightarrow> 0 | Some n \<Rightarrow> n) + 1)
            else nacc,
            obj_set effective (pid j) j)
      else (nacc, effective))"

definition acm_select :: "tdoc \<Rightarrow> jdoc list \<Rightarrow> nat jsobj \<times> jdoc jsobj" where
  "acm_select t journal = foldl (acm_step t) ([], []) journal"

text \<open>
  \<open>_time\<close>: \<open>real + penalty\<close> with
  \<open>real = jdoc.rid.generationTime - Math.floor(tdoc.beginAt.getTime() / 1000)\<close> and
  \<open>penalty = 20 * 60 * naccept[jdoc.pid]\<close>; an absent \<open>naccept[jdoc.pid]\<close> is
  \<open>undefined\<close>, whose product is \<open>NaN\<close>.
\<close>

definition acm_time_of :: "tdoc \<Rightarrow> nat jsobj \<Rightarrow> jdoc \<Rightarrow> jsnum" where
  "acm_time_of t nacc j =
     (let real = Num (of_int (generationTime (rid j) - beginAt t div 1000));
          penalty = js_mul (Num (20 * 60)) (to_number (obj_get nacc (pid j)))
      in js_add real penalty)"

definition acm_detail_of :: "tdoc \<Rightarrow> nat jsobj \<Rightarrow> jdoc \<Rightarrow> acm_detail" where
  "acm_detail_of t nacc j =
     \<lparr> rid = rid j, pid = pid j, accept = accept j, score = score j,
       naccept = obj_get nacc (pid j), time = acm_time_of t nacc j \<rparr>"

definition acm_details :: "tdoc \<Rightarrow> nat jsobj \<Rightarrow> jdoc jsobj \<Rightarrow> acm_detail list" where
  "acm_details t nacc effective =
     map (\<lambda>(key, j). acm_detail_of t nacc j) (obj_entries effective)"

definition acm_totals :: "acm_detail list \<Rightarrow> jsnum \<times> jsnum" where
  "acm_totals ds =
     foldl (\<lambda>(acc, tm) d.
              (js_add acc (bool_to_number (accept d)),
               if accept d then js_add tm (time d) else tm))
           (Num 0, Num 0) ds"

definition acm_stat :: "tdoc \<Rightarrow> jdoc list \<Rightarrow> acm_stats" where
  "acm_stat t journal =
     (let (nacc, effective) = acm_select t journal;
          ds = acm_details t nacc effective;
          (acc, tm) = acm_totals ds
      in \<lparr> acm_accept = acc, acm_time = tm, acm_detail = ds \<rparr>)"

section \<open>OI: \<open>oi.stat\<close>\<close>

record oi_stats =
  oi_score :: jsnum
  oi_detail :: "jdoc jsobj"

definition oi_step :: "tdoc \<Rightarrow> jdoc jsobj \<times> jsnum \<Rightarrow> jdoc \<Rightarrow> jdoc jsobj \<times> jsnum" where
  "oi_step t st j =
     (let (detail, sc) = st in
      if pid j \<in> set (pids t)
      then (obj_set detail (pid j) j, js_add sc (Num (score j)))
      else (detail, sc))"

definition oi_stat :: "tdoc \<Rightarrow> jdoc list \<Rightarrow> oi_stats" where
  "oi_stat t journal =
     (let (detail, sc) = foldl (oi_step t) ([], Num 0) journal
      in \<lparr> oi_score = sc, oi_detail = detail \<rparr>)"

section \<open>Assignment: \<open>homework.stat\<close>\<close>

text \<open>
  \<open>journal[j.pid]\<close> reads the journal array at the problem id: an entry when the id is
  an index of the array, \<open>undefined\<close> otherwise.
\<close>

definition array_get :: "'a list \<Rightarrow> int \<Rightarrow> 'a option" where
  "array_get xs k = (if 0 \<le> k \<and> k < int (length xs) then Some (xs ! nat k) else None)"

text \<open>
  The selection loop.  \<open>journal[j.pid].accept\<close> on \<open>undefined\<close> throws a
  \<open>TypeError\<close>; the conjunction is evaluated left to right.
\<close>

definition hw_step :: "tdoc \<Rightarrow> jdoc list \<Rightarrow> jdoc jsobj \<Rightarrow> jdoc \<Rightarrow> error + jdoc jsobj" where
  "hw_step t journal effective j =
     (if pid j \<in> set (pids t) \<and> obj_get effective (pid j) = None
      then (case array_get journal (pid j) of
              None \<Rightarrow> Inl TypeError
            | Some e \<Rightarrow> if accept e then Inr (obj_set effective (pid j) j) else Inr effective)
      else Inr effective)"

fun hw_select :: "tdoc \<Rightarrow> jdoc list \<Rightarrow> jdoc jsobj \<Rightarrow> jdoc list \<Rightarrow> error + jdoc jsobj" where
  "hw_select t journal effective [] = Inr effective"
| "hw_select t journal effective (j # js) =
     (case hw_step t journal effective j of
        Inl e \<Rightarrow> Inl e
      | Inr effective' \<Rightarrow> hw_select t journal effective' js)"

text \<open>
  The argument of the local function \<open>time\<close>: the source calls it with the loop
  variable of \<open>for (const j in effective)\<close>, a key, not with an entry.  A key has no
  \<open>rid\<close>, so \<open>jdoc.rid.generationTime\<close> throws a \<open>TypeError\<close>.
\<close>

datatype time_arg = Entry jdoc | Key int

fun hw_time :: "tdoc \<Rightarrow> time_arg \<Rightarrow> error + jsnum" where
  "hw_time t (Entry j) =
     Inr (Num (of_int \<lfloor>of_int (generationTime (rid j)) - (of_int (beginAt t) :: rat) / 1000\<rfloor>))"
| "hw_time t (Key k) = Inl TypeError"

text \<open>
  \<open>Object.keys(tdoc.penaltyRules).map((k) => parseFloat(k)).sort((a, b) => a - b)\<close>:
  the sort is stable and puts \<open>a\<close> after \<open>b\<close> only when \<open>a - b\<close> is positive.  (With a
  \<open>NaN\<close> among the keys the comparison is inconsistent and the order is left to the
  implementation; the model then still sorts by insertion.)
\<close>

fun dbl_less :: "jsnum \<Rightarrow> jsnum \<Rightarrow> bool" where
  "dbl_less (Num a) (Num b) = (a < b)"
| "dbl_less NaN y = False"
| "dbl_less x NaN = False"
| "dbl_less x NegInf = False"
| "dbl_less PosInf y = False"
| "dbl_less x y = True"

fun insort_num :: "jsnum \<Rightarrow> jsnum list \<Rightarrow> jsnum list" where
  "insort_num x [] = [x]"
| "insort_num x (y # ys) = (if dbl_less y x then y # insort_num x ys else x # y # ys)"

definition sort_nums :: "jsnum list \<Rightarrow> jsnum list" where
  "sort_nums xs = foldr insort_num xs []"

definition rule_keys :: "(rule_key \<times> rat) list \<Rightarrow> jsnum list" where
  "rule_keys rules = sort_nums (map (\<lambda>kc. canon (parsed (fst kc))) rules)"

text \<open>
  \<open>tdoc.penaltyRules[i]\<close>: the multiplier stored under the canonical spelling of \<open>i\<close>,
  \<open>undefined\<close> when the object has no property of that name.
\<close>

definition rules_get :: "(rule_key \<times> rat) list \<Rightarrow> jsnum \<Rightarrow> rat option" where
  "rules_get rules i =
     map_option snd (find (\<lambda>kc. canonical (fst kc) \<and> canon (parsed (fst kc)) = canon i) rules)"

text \<open>
  \<open>i * 3600 <= exceedSeconds\<close>, the product being a double and \<open>exceedSeconds\<close> a whole
  number of seconds; a comparison with \<open>NaN\<close> is false.
\<close>

fun le_seconds :: "jsnum \<Rightarrow> int \<Rightarrow> bool" where
  "le_seconds (Num p) e = (p \<le> of_int e)"
| "le_seconds NegInf e = True"
| "le_seconds PosInf e = False"
| "le_seconds NaN e = False"

text \<open>
  The loop of \<open>penaltyScore\<close> over the thresholds sorted ascending, with its
  \<open>break\<close>; \<open>tdoc.penaltyRules[i]\<close> of an absent key is \<open>undefined\<close>, which the
  product turns into \<open>NaN\<close>.
\<close>

fun coefficient_loop :: "(rule_key \<times> rat) list \<Rightarrow> int \<Rightarrow> jsnum \<Rightarrow> jsnum list \<Rightarrow> jsnum" where
  "coefficient_loop rules exceedSeconds coefficient [] = coefficient"
| "coefficient_loop rules exceedSeconds coefficient (i # keys) =
     (if le_seconds (js_mul i (Num 3600)) exceedSeconds
      then coefficient_loop rules exceedSeconds
             (case rules_get rules i of None \<Rightarrow> NaN | Some c \<Rightarrow> Num c) keys
      else coefficient)"

definition penaltyScore :: "tdoc \<Rightarrow> jdoc \<Rightarrow> error + jsnum" where
  "penaltyScore t j =
     (case penaltySince t of
        None \<Rightarrow> Inl TypeError
      | Some since \<Rightarrow>
          (let exceedSeconds = \<lfloor>of_int (generationTime (rid j)) - (of_int since :: rat) / 1000\<rfloor>
           in if exceedSeconds < 0 then Inr (Num (score j))
              else Inr (js_mul (Num (score j))
                     (coefficient_loop (penaltyRules t) exceedSeconds (Num 1)
                        (rule_keys (penaltyRules t))))))"

record hw_detail = jdoc +
  d_penaltyScore :: jsnum
  d_time :: jsnum

text \<open>One iteration of \<open>for (const j in effective)\<close>, the properties in source order.\<close>

definition hw_detail_of :: "tdoc \<Rightarrow> int \<times> jdoc \<Rightarrow> error + hw_detail" where
  "hw_detail_of t kv =
     (let (key, e) = kv in
      case penaltyScore t e of
        Inl err \<Rightarrow> Inl err
      | Inr ps \<Rightarrow>
          (case hw_time t (Key key) of
             Inl err \<Rightarrow> Inl err
           | Inr tm \<Rightarrow>
               Inr \<lparr> rid = rid e, pid = pid e, accept = accept e, score = score e,
                     d_penaltyScore = ps, d_time = tm \<rparr>))"

fun hw_details :: "tdoc \<Rightarrow> (int \<times> jdoc) list \<Rightarrow> error + hw_detail list" where
  "hw_details t [] = Inr []"
| "hw_details t (kv # kvs) =
     (case hw_detail_of t kv of
        Inl err \<Rightarrow> Inl err
      | Inr d \<Rightarrow> (case hw_details t kvs of Inl err \<Rightarrow> Inl err | Inr ds \<Rightarrow> Inr (d # ds)))"

text \<open>
  Modelled from the spec: \<open>Math.sum\<close> is an extension of the \<open>Math\<close> object that the
  sources do not define; section 4.2 says that the totals are the sums over the effective
  entries, so it adds up the elements of its argument, starting from 0.
\<close>

definition Math_sum :: "jsnum list \<Rightarrow> jsnum" where
  "Math_sum xs = foldl js_add (Num 0) xs"

text \<open>
  A detail item has no property \<open>penaltySince\<close>: \<open>d.penaltySince\<close> is \<open>undefined\<close>,
  which \<open>ToNumber\<close> turns into \<open>NaN\<close>.
\<close>

definition detail_penaltySince :: "hw_detail \<Rightarrow> nat option" where
  "detail_penaltySince d = None"

record hw_stats =
  hws_score :: jsnum
  hws_penaltyScore :: jsnum
  hws_time :: jsnum
  hws_detail :: "hw_detail list"

definition homework_stat :: "tdoc \<Rightarrow> jdoc list \<Rightarrow> error + hw_stats" where
  "homework_stat t journal =
     (case hw_select t journal [] journal of
        Inl err \<Rightarrow> Inl err
      | Inr effective \<Rightarrow>
          (case hw_details t (obj_entries effective) of
             Inl err \<Rightarrow> Inl err
           | Inr detail \<Rightarrow>
               Inr \<lparr> hws_score = Math_sum (map (\<lambda>d. Num (score d)) detail),
                     hws_penaltyScore =
                       Math_sum (map (\<lambda>d. to_number (detail_penaltySince d)) detail),
                     hws_time = Math_sum (map d_time detail),
                     hws_detail = detail \<rparr>))"

section \<open>Status records and the rule registry\<close>

datatype detail_val =
    AcmDetail "acm_detail list"
  | OiDetail "jdoc jsobj"
  | HwDetail "hw_detail list"

text \<open>
  The status record of one participant in one contest.  Every property but \<open>uid\<close> and
  \<open>rev\<close> may be absent; the properties written by a rule's \<open>stat\<close> carry the prefix
  \<open>ts_\<close>.
\<close>

record tsdoc =
  uid :: int
  rev :: nat
  ts_attend :: "nat option"
  journal :: "jdoc list option"
  ts_accept :: "jsnum option"
  ts_time :: "jsnum option"
  ts_score :: "jsnum option"
  ts_penaltyScore :: "jsnum option"
  ts_detail :: "detail_val option"

datatype stats = AcmStats acm_stats | OiStats oi_stats | HwStats hw_stats

text \<open>\<open>RULES[tdoc.rule].stat(tdoc, journal)\<close>.\<close>

definition rule_stat :: "tdoc \<Rightarrow> jdoc list \<Rightarrow> error + stats" where
  "rule_stat t jnl =
     (case rule t of
        RuleAcm \<Rightarrow> Inr (AcmStats (acm_stat t jnl))
      | RuleOi \<Rightarrow> Inr (OiStats (oi_stat t jnl))
      | RuleHomework \<Rightarrow>
          (case homework_stat t jnl of Inl e \<Rightarrow> Inl e | Inr st \<Rightarrow> Inr (HwStats st)))"

text \<open>
  The update document \<open>{ journal, ...stats }\<close> that \<open>updateStatus\<close> hands to
  \<open>revSetStatus\<close>, and its effect as a \<open>$set\<close> on a status record.
\<close>

record status_set =
  set_journal :: "jdoc list"
  set_stats :: stats

fun apply_stats :: "stats \<Rightarrow> tsdoc \<Rightarrow> tsdoc" where
  "apply_stats (AcmStats st) d =
     d\<lparr> ts_accept := Some (acm_accept st), ts_time := Some (acm_time st),
        ts_detail := Some (AcmDetail (acm_detail st)) \<rparr>"
| "apply_stats (OiStats st) d =
     d\<lparr> ts_score := Some (oi_score st), ts_detail := Some (OiDetail (oi_detail st)) \<rparr>"
| "apply_stats (HwStats st) d =
     d\<lparr> ts_score := Some (hws_score st), ts_penaltyScore := Some (hws_penaltyScore st),
        ts_time := Some (hws_time st), ts_detail := Some (HwDetail (hws_detail st)) \<rparr>"

definition apply_set :: "status_set \<Rightarrow> tsdoc \<Rightarrow> tsdoc" where
  "apply_set u d = apply_stats (set_stats u) (d\<lparr> journal := Some (set_journal u) \<rparr>)"

section \<open>Ranking\<close>

text \<open>
  Modelled from the spec: the generic ranking utility \<open>ranked\<close> of \<open>lib/rank\<close> is not
  among the sources.  Sections 4.3 and 6 describe it: given a sorted sequence and an
  adjacent-pair equality predicate it yields (rank, item) pairs; a record tied with its
  predecessor shares the predecessor's rank, any other record gets its 1-based position.
  \<open>ranked_from equ n r last_doc docs\<close> continues after \<open>n\<close> records, the last of
  them \<open>last_doc\<close> with rank \<open>r\<close>.
\<close>

fun ranked_from :: "('a \<Rightarrow> 'a \<Rightarrow> bool) \<Rightarrow> nat \<Rightarrow> nat \<Rightarrow> 'a \<Rightarrow> 'a list \<Rightarrow> (nat \<times> 'a) list" where
  "ranked_from equ n r last_doc [] = []"
| "ranked_from equ n r last_doc (doc # docs) =
     (let r' = (if equ last_doc doc then r else n + 1)
      in (r', doc) # ranked_from equ (n + 1) r' doc docs)"

fun ranked :: "'a list \<Rightarrow> ('a \<Rightarrow> 'a \<Rightarrow> bool) \<Rightarrow> (nat \<times> 'a) list" where
  "ranked [] equ = []"
| "ranked (doc # docs) equ = (1, doc) # ranked_from equ 1 1 doc docs"

text \<open>
  \<open>a.score === b.score\<close>: two absent scores are strictly equal, two numbers are when
  they are the same number, and \<open>NaN\<close> equals nothing.
\<close>

fun strict_eq :: "jsnum option \<Rightarrow> jsnum option \<Rightarrow> bool" where
  "strict_eq None None = True"
| "strict_eq (Some (Num a)) (Some (Num b)) = (a = b)"
| "strict_eq (Some PosInf) (Some PosInf) = True"
| "strict_eq (Some NegInf) (Some NegInf) = True"
| "strict_eq _ _ = False"

definition score_tie :: "tsdoc \<Rightarrow> tsdoc \<Rightarrow> bool" where
  "score_tie a b = strict_eq (ts_score a) (ts_score b)"

text \<open>\<open>rank: (tsdocs) => ranked(tsdocs, (a, b) => a.score === b.score)\<close>, the same for
  the three rules.\<close>

definition acm_rank :: "tsdoc list \<Rightarrow> (nat \<times> tsdoc) list" where
  "acm_rank tsdocs = ranked tsdocs score_tie"

definition oi_rank :: "tsdoc list \<Rightarrow> (nat \<times> tsdoc) list" where
  "oi_rank tsdocs = ranked tsdocs score_tie"

definition homework_rank :: "tsdoc list \<Rightarrow> (nat \<times> tsdoc) list" where
  "homework_rank tsdocs = ranked tsdocs score_tie"

section \<open>Status store protocol\<close>

text \<open>
  \<open>_getStatusJournal\<close>: \<open>Array.prototype.sort\<close> is stable, so the journal is sorted by
  insertion on the creation instant; an absent journal has no \<open>sort\<close>.
\<close>

definition getStatusJournal :: "tsdoc \<Rightarrow> error + jdoc list" where
  "getStatusJournal d =
     (case journal d of
        None \<Rightarrow> Inl TypeError
      | Some jnl \<Rightarrow> Inr (sort_key (\<lambda>j. generationTime (rid j)) jnl))"

text \<open>\<open>!tsdoc.attend\<close>: the flag is absent or zero.\<close>

definition not_attended :: "tsdoc \<Rightarrow> bool" where
  "not_attended d = (case ts_attend d of None \<Rightarrow> True | Some n \<Rightarrow> n = 0)"

text \<open>
  The document store is not among the sources, so \<open>get\<close>, \<open>updateStatus\<close> and
  \<open>attend\<close> take its operations as parameters over an arbitrary store state \<open>'s\<close>:
  \<open>document.get\<close>, \<open>document.revPushStatus\<close>, \<open>document.revSetStatus\<close>,
  \<open>document.cappedIncStatus\<close> (\<open>None\<close> when it throws) and \<open>document.inc\<close>.
  A contest is identified by \<open>tid\<close>, a participant by \<open>uid\<close>; the domain and the
  document type, which only select the collection, are left out of the keys.
\<close>

type_synonym 's doc_get = "'s \<Rightarrow> nat \<Rightarrow> tdoc option"
type_synonym 's rev_push = "'s \<Rightarrow> nat \<Rightarrow> int \<Rightarrow> jdoc \<Rightarrow> tsdoc \<times> 's"
type_synonym 's rev_set = "'s \<Rightarrow> nat \<Rightarrow> int \<Rightarrow> nat \<Rightarrow> status_set \<Rightarrow> tsdoc option \<times> 's"
type_synonym 's capped_inc = "'s \<Rightarrow> nat \<Rightarrow> int \<Rightarrow> nat \<Rightarrow> nat \<Rightarrow> nat \<Rightarrow> tsdoc option \<times> 's"
type_synonym 's doc_inc = "'s \<Rightarrow> nat \<Rightarrow> nat \<Rightarrow> 's"

definition get :: "'s doc_get \<Rightarrow> 's \<Rightarrow> nat \<Rightarrow> error + tdoc" where
  "get document_get s tid =
     (case document_get s tid of None \<Rightarrow> Inl ContestNotFoundError | Some t \<Rightarrow> Inr t)"

definition updateStatus ::
  "'s doc_get \<Rightarrow> 's rev_push \<Rightarrow> 's rev_set \<Rightarrow> 's \<Rightarrow> nat \<Rightarrow> int \<Rightarrow> ObjectID \<Rightarrow> int \<Rightarrow> bool \<Rightarrow> rat
     \<Rightarrow> (error + tsdoc option) \<times> 's" where
  "updateStatus document_get revPushStatus revSetStatus s tid u r p acc sc =
     (case get document_get s tid of
        Inl e \<Rightarrow> (Inl e, s)
      | Inr t \<Rightarrow>
          (let (d, s1) = revPushStatus s tid u \<lparr> rid = r, pid = p, accept = acc, score = sc \<rparr>
           in if not_attended d then (Inl ContestNotAttendedError, s1)
              else (case getStatusJournal d of
                      Inl e \<Rightarrow> (Inl e, s1)
                    | Inr jnl \<Rightarrow>
                        (case rule_stat t jnl of
                           Inl e \<Rightarrow> (Inl e, s1)
                         | Inr st \<Rightarrow>
                             (let (res, s2) = revSetStatus s1 tid u (rev d)
                                                \<lparr> set_journal = jnl, set_stats = st \<rparr>
                              in (Inr res, s2))))))"

definition attend :: "'s capped_inc \<Rightarrow> 's doc_inc \<Rightarrow> 's \<Rightarrow> nat \<Rightarrow> int \<Rightarrow> (error + unit) \<times> 's" where
  "attend cappedIncStatus document_inc s tid u =
     (case cappedIncStatus s tid u 1 0 1 of
        (None, s1) \<Rightarrow> (Inl ContestAlreadyAttendedError, s1)
      | (Some d, s1) \<Rightarrow> (Inr (), document_inc s1 tid 1))"

section \<open>Scoreboard rendering\<close>




















subsection \<open>\<open>acm.scoreboard\<close>\<close>






subsection \<open>\<open>oi.scoreboard\<close>\<close>






subsection \<open>\<open>homework.scoreboard\<close>\<close>










section \<open>A model of the document store\<close>

text \<open>
  Modelled from the spec: the document store (\<open>document.get\<close>, \<open>revPushStatus\<close>,
  \<open>revSetStatus\<close>, \<open>cappedIncStatus\<close>, \<open>inc\<close>) is not among the sources.  Sections 3,
  4.5 and 6 give its contract: contest records keyed by contest id, status records keyed
  by (contest, participant) and created on first use, each store operation atomic.
\<close>

record store =
  contests :: "nat \<Rightarrow> tdoc option"
  statuses :: "nat \<times> int \<Rightarrow> tsdoc option"

text \<open>
  Modelled from the spec: a status record is created on first use (section 3); before
  that the participant's record is the empty one.
\<close>

definition new_status :: "int \<Rightarrow> tsdoc" where
  "new_status u = \<lparr> uid = u, rev = 0, ts_attend = None, journal = None, ts_accept = None,
                     ts_time = None, ts_score = None, ts_penaltyScore = None, ts_detail = None \<rparr>"

definition status_of :: "store \<Rightarrow> nat \<Rightarrow> int \<Rightarrow> tsdoc" where
  "status_of s tid u = (case statuses s (tid, u) of None \<Rightarrow> new_status u | Some d \<Rightarrow> d)"

text \<open>The journal of a participant's status record, empty when absent.\<close>

definition old_journal :: "store \<Rightarrow> nat \<Rightarrow> int \<Rightarrow> jdoc list" where
  "old_journal s tid u = (case journal (status_of s tid u) of None \<Rightarrow> [] | Some js \<Rightarrow> js)"

text \<open>Modelled from the spec: \<open>document.get\<close>, the lookup of a contest record.\<close>

definition document_get_m :: "store doc_get" where
  "document_get_m s tid = contests s tid"

text \<open>
  Modelled from the spec: journal append (section 4.5), "atomically append a journal entry
  and return the updated record together with its new revision token".
\<close>

definition revPushStatus_m :: "store rev_push" where
  "revPushStatus_m s tid u j =
     (let d0 = status_of s tid u;
          d = d0\<lparr> journal := Some ((case journal d0 of None \<Rightarrow> [] | Some js \<Rightarrow> js) @ [j]),
                  rev := rev d0 + 1 \<rparr>
      in (d, s\<lparr> statuses := (statuses s)((tid, u) \<mapsto> d) \<rparr>))"

text \<open>
  Modelled from the spec: stat write (section 4.5), a write "conditioned on that revision
  still being current", rejected (\<open>None\<close>, store unchanged) when the revision has advanced.
\<close>

definition revSetStatus_m :: "store rev_set" where
  "revSetStatus_m s tid u rv upd =
     (case statuses s (tid, u) of
        None \<Rightarrow> (None, s)
      | Some d \<Rightarrow>
          if rev d = rv
          then (let d' = (apply_set upd d)\<lparr> rev := rev d + 1 \<rparr>
                in (Some d', s\<lparr> statuses := (statuses s)((tid, u) \<mapsto> d') \<rparr>))
          else (None, s))"

text \<open>The attendance field of a participant's status record, 0 when absent.\<close>

definition attend_flag :: "store \<Rightarrow> nat \<Rightarrow> int \<Rightarrow> nat" where
  "attend_flag s tid u = (case ts_attend (status_of s tid u) of None \<Rightarrow> 0 | Some n \<Rightarrow> n)"

text \<open>
  Modelled from the spec: attendance (section 4.5), "a bounded increment on the status
  record's attendance field from 0 to 1 that fails if already at 1 (capped increment)".
  The operation adds \<open>v\<close> unless the field has reached \<open>hi\<close>; \<open>None\<close> is its failure.
\<close>

definition cappedIncStatus_m :: "store capped_inc" where
  "cappedIncStatus_m s tid u v lo hi =
     (if hi \<le> attend_flag s tid u then (None, s)
      else (let d = (status_of s tid u)\<lparr> ts_attend := Some (attend_flag s tid u + v) \<rparr>
            in (Some d, s\<lparr> statuses := (statuses s)((tid, u) \<mapsto> d) \<rparr>)))"

text \<open>
  Modelled from the spec: "a separate, unconditioned increment bumps the contest's global
  attendance counter".
\<close>

definition document_inc_m :: "store doc_inc" where
  "document_inc_m s tid n =
     (case contests s tid of
        None \<Rightarrow> s
      | Some t \<Rightarrow> s\<lparr> contests := (contests s)(tid \<mapsto> t\<lparr> t_attend := t_attend t + n \<rparr>) \<rparr>)"

section \<open>Concurrent calls of \<open>attend\<close>\<close>

text \<open>
  A call of \<open>attend\<close> performs two store operations, one at each \<open>await\<close>.  Its state
  is \<open>Calling\<close> before \<open>cappedIncStatus\<close>, \<open>Incrementing\<close> between a successful
  \<open>cappedIncStatus\<close> and \<open>document.inc\<close>, then \<open>Returned\<close>; \<open>Thrown e\<close> after the
  \<open>catch\<close> has thrown \<open>e\<close>.  Concurrent calls for one contest and participant interleave
  their store operations: a schedule lists, step by step, the call that performs its next
  operation.
\<close>

datatype call_state = Calling | Incrementing | Returned | Thrown error

definition call_step :: "nat \<Rightarrow> int \<Rightarrow> store \<Rightarrow> call_state \<Rightarrow> store \<times> call_state" where
  "call_step tid u s c =
     (case c of
        Calling \<Rightarrow>
          (case cappedIncStatus_m s tid u 1 0 1 of
             (None, s1) \<Rightarrow> (s1, Thrown ContestAlreadyAttendedError)
           | (Some d, s1) \<Rightarrow> (s1, Incrementing))
      | Incrementing \<Rightarrow> (document_inc_m s tid 1, Returned)
      | Returned \<Rightarrow> (s, Returned)
      | Thrown e \<Rightarrow> (s, Thrown e))"

definition sched_step :: "nat \<Rightarrow> int \<Rightarrow> store \<times> call_state list \<Rightarrow> nat \<Rightarrow> store \<times> call_state list" where
  "sched_step tid u cfg i =
     (let (s, cs) = cfg in
      if i < length cs
      then (let (s', c') = call_step tid u s (cs ! i) in (s', cs[i := c']))
      else (s, cs))"

definition run_calls :: "nat \<Rightarrow> int \<Rightarrow> nat list \<Rightarrow> store \<times> call_state list \<Rightarrow> store \<times> call_state list" where
  "run_calls tid u sched cfg = foldl (sched_step tid u) cfg sched"

definition succeeded :: "call_state \<Rightarrow> bool" where
  "succeeded c = (c = Incrementing \<or> c = Returned)"

definition finished :: "call_state \<Rightarrow> bool" where
  "finished c = (case c of Calling \<Rightarrow> False | Incrementing \<Rightarrow> False | _ \<Rightarrow> True)"

text \<open>
  The invariant of the interleaved calls: the attendance flag counts the calls that have
  passed \<open>cappedIncStatus\<close>, it is at most 1, and a call has thrown only the
  already-attended error and only while the flag is 1.
\<close>

definition calls_inv :: "nat \<Rightarrow> int \<Rightarrow> nat \<Rightarrow> store \<times> call_state list \<Rightarrow> bool" where
  "calls_inv tid u n cfg =
     (let (s, cs) = cfg in
      length cs = n
      \<and> attend_flag s tid u = length (filter succeeded cs)
      \<and> attend_flag s tid u \<le> 1
      \<and> (\<forall>c\<in>set cs. \<forall>e. c = Thrown e \<longrightarrow> e = ContestAlreadyAttendedError \<and> attend_flag s tid u = 1))"

section \<open>Example inputs\<close>

text \<open>
  The assignment of the spec's example: penalty table \<open>{1: 0.8, 3: 0.5}\<close> and
  \<open>penaltySince\<close> at second 1000; \<open>entry_at g p a sc\<close> is a journal entry created at
  second \<open>g\<close>.
\<close>

definition hw_example :: tdoc where
  "hw_example = \<lparr> rule = RuleHomework, pids = [0], beginAt = 0, endAt = 90000000,
                   penaltySince = Some 1000000,
                   penaltyRules = [(\<lparr> parsed = Num 1, canonical = True \<rparr>, 4 / 5),
                                   (\<lparr> parsed = Num 3, canonical = True \<rparr>, 1 / 2)],
                   t_attend = 1 \<rparr>"

definition entry_at :: "int \<Rightarrow> int \<Rightarrow> bool \<Rightarrow> rat \<Rightarrow> jdoc" where
  "entry_at g p a sc = \<lparr> rid = \<lparr> generationTime = g, rest = 0 \<rparr>, pid = p, accept = a, score = sc \<rparr>"

text \<open>An ACM contest with problems 1 and 2 that begins at second 500.\<close>

definition acm_example :: tdoc where
  "acm_example = \<lparr> rule = RuleAcm, pids = [1, 2], beginAt = 500000, endAt = 90000000,
                    penaltySince = None, penaltyRules = [], t_attend = 1 \<rparr>"

text \<open>
  Status records for the ranking examples: \<open>fresh_status u\<close> is the record of an attended
  participant before any statistics are written, \<open>scored_status u sc tm\<close> one with a
  numeric score and total time.  \<open>rank_example\<close> has the scores of the spec's example,
  with total times that differ inside each tie.
\<close>

definition fresh_status :: "int \<Rightarrow> tsdoc" where
  "fresh_status u = \<lparr> uid = u, rev = 0, ts_attend = Some 1, journal = None, ts_accept = None,
                       ts_time = None, ts_score = None, ts_penaltyScore = None, ts_detail = None \<rparr>"

definition scored_status :: "int \<Rightarrow> rat \<Rightarrow> rat \<Rightarrow> tsdoc" where
  "scored_status u sc tm = (fresh_status u)\<lparr> ts_score := Some (Num sc), ts_time := Some (Num tm) \<rparr>"

definition rank_example :: "tsdoc list" where
  "rank_example = [scored_status 1 100 10, scored_status 2 100 20, scored_status 3 80 5,
                   scored_status 4 80 6, scored_status 5 80 7, scored_status 6 50 1]"

definition acm_journal_example :: "tsdoc \<Rightarrow> jdoc list" where
  "acm_journal_example d =
     (if uid d = 1 then [entry_at 600 1 False 0, entry_at 700 1 True 100]
      else if uid d = 2 then []
      else [entry_at 800 2 False 0])"

text \<open>
  A store with the ACM contest 1 and the assignment 2; participant 7 attends contest 1 and
  has one rejected submission at second 700 in the journal.
\<close>

definition store_example :: store where
  "store_example =
     \<lparr> contests = [1 \<mapsto> acm_example, 2 \<mapsto> hw_example],
       statuses = [(1, 7) \<mapsto> (fresh_status 7)\<lparr> rev := 1,
                                    journal := Some [entry_at 700 1 False 0] \<rparr>] \<rparr>"

text \<open>The same store after participant 7 has also attended the assignment 2.\<close>

definition store_homework_example :: store where
  "store_homework_example =
     store_example\<lparr> statuses := (statuses store_example)((2, 7) \<mapsto> fresh_status 7) \<rparr>"




section \<open>Properties of the numbers\<close>

lemmas num_unfold = js_add_def js_mul_def to_double_def exact_integer_def

lemma dbl_add_NaN [simp]: "dbl_add x NaN = NaN"
  by (cases x) simp_all

lemma dbl_mul_NaN [simp]: "dbl_mul x NaN = NaN"
  by (cases x) simp_all

lemma js_add_NaN [simp]: "js_add x NaN = NaN" "js_add NaN y = NaN"
  by (simp_all add: js_add_def)

lemma js_mul_NaN [simp]: "js_mul x NaN = NaN" "js_mul NaN y = NaN"
  by (simp_all add: js_mul_def)

text \<open>
  Rounding leaves an integer of magnitude up to \<open>2 ^ 53\<close> as it is, so \<open>to_double\<close>
  is \<open>round_to_double\<close>.
\<close>

lemma bit_length_pos: "0 < n \<Longrightarrow> 1 \<le> bit_length n"
proof -
  assume n: "0 < n"
  have nonneg: "0 \<le> bit_length m" for m
    by (induction m rule: bit_length.induct) (simp add: bit_length.simps)
  from n nonneg [of "n div 2"] show ?thesis
    by (simp add: bit_length.simps [of n])
qed

lemma bit_length_bounds:
  "0 < n \<Longrightarrow> 2 ^ nat (bit_length n - 1) \<le> n \<and> n < 2 ^ nat (bit_length n)"
proof (induction n rule: bit_length.induct)
  case (1 n)
  show ?case
  proof (cases "n div 2 = 0")
    case True
    with 1(2) have "n = 1" by presburger
    then show ?thesis
      by (simp add: bit_length.simps [of 1] bit_length.simps [of 0])
  next
    case False
    with 1(2) have pos: "0 < n div 2" by presburger
    from 1(1) 1(2) pos have ih: "2 ^ nat (bit_length (n div 2) - 1) \<le> n div 2"
      "n div 2 < 2 ^ nat (bit_length (n div 2))"
      by simp_all
    define k where "k = nat (bit_length (n div 2) - 1)"
    from bit_length_pos [OF pos] have k: "bit_length (n div 2) = int (Suc k)"
      by (simp add: k_def)
    from 1(2) have bl: "bit_length n = 1 + int (Suc k)"
      by (simp add: bit_length.simps [of n] k)
    have nk: "nat (bit_length (n div 2)) = Suc k" "nat (bit_length (n div 2) - 1) = k"
      by (simp_all add: k)
    from ih have a: "2 ^ k \<le> n div 2" and b: "n div 2 < 2 ^ Suc k"
      by (simp_all only: nk)
    from a have "2 * 2 ^ k \<le> n" by presburger
    moreover from b have "n < 2 * 2 ^ Suc k" by presburger
    ultimately show ?thesis
      by (simp add: bl nat_add_distrib)
  qed
qed

lemma round_half_even_of_int [simp]: "round_half_even (of_int m) = m"
  by (simp add: round_half_even_def)

lemma round_to_double_exact:
  assumes "exact_integer x"
  shows "round_to_double x = Num x"
proof (cases "x = 0")
  case True
  then show ?thesis by (simp add: round_to_double_def)
next
  case False
  from assms have "of_int \<lfloor>x\<rfloor> = x" and le: "\<bar>x\<bar> \<le> 9007199254740992"
    by (simp_all add: exact_integer_def)
  then obtain n where x: "x = of_int n" by metis
  define a where "a = \<bar>n\<bar>"
  from False x have a_pos: "0 < a" by (simp add: a_def)
  from le x have a_le: "a \<le> 9007199254740992"
    unfolding a_def by (metis of_int_abs of_int_le_iff of_int_numeral)
  have absx: "\<bar>x\<bar> = of_int a" by (simp add: x a_def)
  define b where "b = bit_length a"
  from bit_length_bounds [OF a_pos] have lo: "2 ^ nat (b - 1) \<le> a" and hi: "a < 2 ^ nat b"
    by (simp_all add: b_def)
  from bit_length_pos [OF a_pos] have b1: "1 \<le> b" by (simp add: b_def)
  have b54: "b \<le> 54"
  proof (rule ccontr)
    assume "\<not> b \<le> 54"
    then have "54 \<le> nat (b - 1)" by simp
    then have "(2::int) ^ 54 \<le> 2 ^ nat (b - 1)"
      by (rule power_increasing) simp
    with lo a_le show False by simp
  qed
  have il: "ilog2 \<bar>x\<bar> = b - 1"
    using a_pos by (simp add: ilog2_def absx b_def)
  have e: "max (ilog2 \<bar>x\<bar> - 52) (- 1074) = b - 53"
    using b1 by (simp add: il)
  have "of_int (round_half_even (\<bar>x\<bar> / pow2 (b - 53))) * pow2 (b - 53) = \<bar>x\<bar>"
  proof (cases "b \<le> 53")
    case True
    define k where "k = nat (53 - b)"
    have p: "pow2 (b - 53) = 1 / 2 ^ k"
    proof (cases "b = 53")
      case True
      then show ?thesis by (simp add: pow2_def k_def)
    next
      case False
      with \<open>b \<le> 53\<close> have "b - 53 < 0" by simp
      then show ?thesis by (simp add: pow2_def k_def)
    qed
    have "\<bar>x\<bar> / pow2 (b - 53) = of_int (a * 2 ^ k)"
      by (simp add: p absx)
    then have "round_half_even (\<bar>x\<bar> / pow2 (b - 53)) = a * 2 ^ k"
      by (simp only: round_half_even_of_int)
    then show ?thesis
      by (simp add: p absx)
  next
    case False
    with b54 have b: "b = 54" by simp
    with lo a_le have a: "a = 9007199254740992" by simp
    have "\<bar>x\<bar> / pow2 (b - 53) = of_int 4503599627370496"
      by (simp add: b pow2_def absx a)
    then have "round_half_even (\<bar>x\<bar> / pow2 (b - 53)) = 4503599627370496"
      by (simp only: round_half_even_of_int)
    then show ?thesis
      by (simp add: b pow2_def absx a)
  qed
  with e have y: "round_magnitude \<bar>x\<bar> = \<bar>x\<bar>"
    by (simp add: round_magnitude_def)
  have small: "\<not> 1024 \<le> ilog2 \<bar>x\<bar>"
    using b54 by (simp add: il)
  from False y small show ?thesis
    by (auto simp: round_to_double_def Let_def)
qed

lemma to_double_round: "to_double x = round_to_double x"
  by (simp add: to_double_def round_to_double_exact)

text \<open>
  Rounding is monotone.  \<open>ilog2\<close> is the exponent it is meant to be; the rounded
  magnitude of a positive rational lies between the powers of two around it, unless it is
  subnormal.
\<close>

lemma pow2_powi: "pow2 e = power_int 2 e"
  by (simp add: pow2_def power_int_def power_one_over inverse_eq_divide)

lemma pow2_pos [simp]: "0 < pow2 e"
  by (simp add: pow2_powi zero_less_power_int)

lemma pow2_add: "pow2 (a + b) = pow2 a * pow2 b"
  by (simp add: pow2_powi power_int_add)

lemma pow2_mono: "a \<le> b \<Longrightarrow> pow2 a \<le> pow2 b"
  by (simp add: pow2_powi power_int_increasing)

lemma pow2_strict_mono: "a < b \<Longrightarrow> pow2 a < pow2 b"
  by (simp add: pow2_powi power_int_strict_increasing)

lemma pow2_nonneg_exp: "0 \<le> e \<Longrightarrow> pow2 e = of_int (2 ^ nat e)"
  by (simp add: pow2_def)

lemma pow2_neg_exp: "e \<le> 0 \<Longrightarrow> pow2 e = 1 / of_int (2 ^ nat (- e))"
  by (cases "e = 0") (simp_all add: pow2_def)

lemma ilog2_bounds:
  assumes "0 < x"
  shows "pow2 (ilog2 x) \<le> x" and "x < pow2 (ilog2 x + 1)"
proof -
  have "pow2 (ilog2 x) \<le> x \<and> x < pow2 (ilog2 x + 1)"
  proof (cases "1 \<le> x")
    case True
    define n where "n = \<lfloor>x\<rfloor>"
    define b where "b = bit_length n"
    from True have n: "0 < n" by (simp add: n_def)
    from bit_length_bounds [OF n] have lo: "2 ^ nat (b - 1) \<le> n" and hi: "n < 2 ^ nat b"
      by (simp_all add: b_def)
    from bit_length_pos [OF n] have b1: "1 \<le> b" by (simp add: b_def)
    from True have il: "ilog2 x = b - 1"
      by (simp add: ilog2_def b_def n_def)
    have "pow2 (b - 1) = of_int (2 ^ nat (b - 1))"
      using b1 by (simp add: pow2_nonneg_exp)
    also from lo have "\<dots> \<le> of_int n" by (simp only: of_int_le_iff)
    also have "\<dots> \<le> x" by (simp add: n_def)
    finally have low: "pow2 (b - 1) \<le> x" .
    from hi have "n + 1 \<le> 2 ^ nat b" by simp
    then have "(of_int (n + 1) :: rat) \<le> of_int (2 ^ nat b)" by (simp only: of_int_le_iff)
    moreover have "x < of_int (n + 1)" unfolding n_def by linarith
    moreover have "pow2 b = of_int (2 ^ nat b)"
      using b1 by (simp add: pow2_nonneg_exp)
    ultimately have "x < pow2 b" by simp
    with low il show ?thesis by simp
  next
    case False
    define c where "c = \<lceil>1 / x\<rceil>"
    define n where "n = c - 1"
    define b where "b = bit_length n"
    from False assms have inv: "1 < 1 / x" by simp
    then have "1 < c" unfolding c_def by (simp add: less_ceiling_iff)
    then have n: "0 < n" by (simp add: n_def)
    have below: "of_int n < 1 / x"
      unfolding n_def c_def by (metis ceiling_correct of_int_diff of_int_1)
    have above: "1 / x \<le> of_int (n + 1)"
      unfolding n_def c_def by simp
    from bit_length_bounds [OF n] have lo: "2 ^ nat (b - 1) \<le> n" and hi: "n < 2 ^ nat b"
      by (simp_all add: b_def)
    from bit_length_pos [OF n] have b1: "1 \<le> b" by (simp add: b_def)
    from False have il: "ilog2 x = - b"
      by (simp add: ilog2_def b_def n_def c_def)
    from hi have "n + 1 \<le> 2 ^ nat b" by simp
    then have "(of_int (n + 1) :: rat) \<le> of_int (2 ^ nat b)" by (simp only: of_int_le_iff)
    from above this have "1 / x \<le> of_int (2 ^ nat b)" by (rule order_trans)
    with assms have "1 / of_int (2 ^ nat b) \<le> x"
      by (simp add: field_simps)
    moreover have "pow2 (- b) = 1 / of_int (2 ^ nat b)"
      using b1 by (simp add: pow2_neg_exp)
    ultimately have low: "pow2 (- b) \<le> x" by simp
    from lo have "(of_int (2 ^ nat (b - 1)) :: rat) \<le> of_int n" by (simp only: of_int_le_iff)
    from this below have "of_int (2 ^ nat (b - 1)) < 1 / x" by (rule le_less_trans)
    with assms have "x < 1 / of_int (2 ^ nat (b - 1))"
      by (simp add: field_simps)
    moreover have "pow2 (- b + 1) = 1 / of_int (2 ^ nat (b - 1))"
      using b1 pow2_neg_exp [of "- b + 1"] by simp
    ultimately have "x < pow2 (- b + 1)" by simp
    with low il show ?thesis by simp
  qed
  then show "pow2 (ilog2 x) \<le> x" and "x < pow2 (ilog2 x + 1)" by simp_all
qed

lemma ilog2_mono:
  assumes "0 < a" "a \<le> b"
  shows "ilog2 a \<le> ilog2 b"
proof (rule ccontr)
  assume "\<not> ilog2 a \<le> ilog2 b"
  then have "ilog2 b + 1 \<le> ilog2 a" by simp
  then have "pow2 (ilog2 b + 1) \<le> pow2 (ilog2 a)" by (rule pow2_mono)
  also from assms(1) have "\<dots> \<le> a" by (rule ilog2_bounds)
  finally have "pow2 (ilog2 b + 1) \<le> b" using assms(2) by simp
  moreover from assms have "b < pow2 (ilog2 b + 1)" by (intro ilog2_bounds) simp
  ultimately show False by simp
qed

lemma ilog2_ge: "0 < x \<Longrightarrow> pow2 k \<le> x \<Longrightarrow> k \<le> ilog2 x"
proof (rule ccontr)
  assume x: "0 < x" and k: "pow2 k \<le> x" and "\<not> k \<le> ilog2 x"
  then have "ilog2 x + 1 \<le> k" by simp
  then have "pow2 (ilog2 x + 1) \<le> pow2 k" by (rule pow2_mono)
  with k ilog2_bounds(2) [OF x] show False by simp
qed

lemma round_half_even_range:
  "of_int \<lfloor>x\<rfloor> \<le> (of_int (round_half_even x) :: rat) \<and> round_half_even x \<le> \<lfloor>x\<rfloor> + 1
   \<and> round_half_even x \<in> {\<lfloor>x\<rfloor>, \<lfloor>x\<rfloor> + 1}"
  by (simp add: round_half_even_def Let_def)

lemma round_half_even_mono:
  assumes "a \<le> b"
  shows "round_half_even a \<le> round_half_even b"
proof (cases "\<lfloor>a\<rfloor> = \<lfloor>b\<rfloor>")
  case True
  with assms show ?thesis
    by (auto simp: round_half_even_def Let_def)
next
  case False
  with assms have "\<lfloor>a\<rfloor> + 1 \<le> \<lfloor>b\<rfloor>"
    using floor_mono [OF assms] by simp
  moreover have "round_half_even a \<le> \<lfloor>a\<rfloor> + 1" "\<lfloor>b\<rfloor> \<le> round_half_even b"
    by (simp_all add: round_half_even_def Let_def)
  ultimately show ?thesis by simp
qed

lemma round_half_even_ge: "of_int n \<le> x \<Longrightarrow> n \<le> round_half_even x"
  using round_half_even_mono [of "of_int n" x] by simp

lemma round_half_even_le: "x \<le> of_int n \<Longrightarrow> round_half_even x \<le> n"
  using round_half_even_mono [of x "of_int n"] by simp

lemma round_magnitude_nonneg: "0 \<le> a \<Longrightarrow> 0 \<le> round_magnitude a"
proof -
  assume "0 \<le> a"
  then have "of_int 0 \<le> a / pow2 (max (ilog2 a - 52) (- 1074))"
    by (simp add: less_imp_le [OF pow2_pos])
  then have "0 \<le> round_half_even (a / pow2 (max (ilog2 a - 52) (- 1074)))"
    by (rule round_half_even_ge)
  then have "0 \<le> rat_of_int (round_half_even (a / pow2 (max (ilog2 a - 52) (- 1074))))"
    by simp
  then have "0 \<le> rat_of_int (round_half_even (a / pow2 (max (ilog2 a - 52) (- 1074))))
                 * pow2 (max (ilog2 a - 52) (- 1074))"
    by (rule mult_nonneg_nonneg) (rule less_imp_le [OF pow2_pos])
  then show ?thesis
    by (simp add: round_magnitude_def Let_def)
qed

lemma round_half_even_small: "0 \<le> q \<Longrightarrow> q < 1 / 2 \<Longrightarrow> round_half_even q = 0"
proof -
  assume q: "0 \<le> q" "q < 1 / 2"
  then have "\<lfloor>q\<rfloor> = 0" by (simp add: floor_eq_iff)
  with q show ?thesis by (simp add: round_half_even_def Let_def)
qed

lemma round_magnitude_unfold:
  "round_magnitude a =
     of_int (round_half_even (a / pow2 (max (ilog2 a - 52) (- 1074))))
       * pow2 (max (ilog2 a - 52) (- 1074))"
  by (simp add: round_magnitude_def Let_def)

lemma round_magnitude_upper:
  assumes "0 < a"
  shows "round_magnitude a \<le> pow2 (ilog2 a + 1)"
proof -
  define e where "e = max (ilog2 a - 52) (- 1074)"
  define q where "q = a / pow2 e"
  define k where "k = ilog2 a + 1 - e"
  have mag: "round_magnitude a = of_int (round_half_even q) * pow2 e"
    by (simp add: round_magnitude_unfold e_def q_def)
  have split: "pow2 (ilog2 a + 1) = pow2 k * pow2 e"
    by (simp add: k_def pow2_add [symmetric])
  from ilog2_bounds(2) [OF assms] have "a < pow2 k * pow2 e"
    by (simp add: split)
  then have q_lt: "q < pow2 k"
    by (simp add: q_def pos_divide_less_eq)
  from assms have q0: "0 \<le> q"
    by (simp add: q_def less_imp_le)
  show ?thesis
  proof (cases "0 \<le> k")
    case True
    then have "pow2 k = of_int (2 ^ nat k)" by (rule pow2_nonneg_exp)
    with q_lt have "q \<le> of_int (2 ^ nat k)" by simp
    then have "round_half_even q \<le> 2 ^ nat k" by (rule round_half_even_le)
    then have "(of_int (round_half_even q) :: rat) \<le> of_int (2 ^ nat k)"
      by (simp only: of_int_le_iff)
    with True have "of_int (round_half_even q) \<le> pow2 k"
      by (simp add: pow2_nonneg_exp)
    then have "of_int (round_half_even q) * pow2 e \<le> pow2 k * pow2 e"
      by (rule mult_right_mono) (rule less_imp_le [OF pow2_pos])
    then show ?thesis by (simp add: mag split)
  next
    case False
    then have "k \<le> - 1" by simp
    then have "pow2 k \<le> pow2 (- 1)" by (rule pow2_mono)
    also have "pow2 (- 1) = 1 / 2" by (simp add: pow2_def)
    finally have "q < 1 / 2" using q_lt by simp
    with q0 have "round_half_even q = 0" by (rule round_half_even_small)
    then have "round_magnitude a = 0" by (simp add: mag)
    then show ?thesis by (simp add: less_imp_le)
  qed
qed

lemma round_magnitude_lower:
  assumes "0 < a" and normal: "- 1074 \<le> ilog2 a - 52"
  shows "pow2 (ilog2 a) \<le> round_magnitude a"
proof -
  define e where "e = ilog2 a - 52"
  define q where "q = a / pow2 e"
  from normal have "max (ilog2 a - 52) (- 1074) = ilog2 a - 52"
    by simp
  then have mag: "round_magnitude a = of_int (round_half_even q) * pow2 e"
    by (simp add: round_magnitude_unfold e_def q_def)
  have split: "pow2 (ilog2 a) = pow2 52 * pow2 e"
    by (simp add: e_def pow2_add [symmetric])
  from ilog2_bounds(1) [OF assms(1)] have "pow2 52 * pow2 e \<le> a"
    by (simp add: split)
  then have "pow2 52 \<le> q"
    by (simp add: q_def pos_le_divide_eq)
  moreover have "pow2 52 = of_int (2 ^ 52)"
    using pow2_nonneg_exp [of 52] by simp
  ultimately have "of_int (2 ^ 52) \<le> q" by simp
  then have "2 ^ 52 \<le> round_half_even q" by (rule round_half_even_ge)
  then have "(of_int (2 ^ 52) :: rat) \<le> of_int (round_half_even q)"
    by (simp only: of_int_le_iff)
  with \<open>pow2 52 = of_int (2 ^ 52)\<close> have "pow2 52 \<le> of_int (round_half_even q)"
    by simp
  then have "pow2 52 * pow2 e \<le> of_int (round_half_even q) * pow2 e"
    by (rule mult_right_mono) (rule less_imp_le [OF pow2_pos])
  then show ?thesis by (simp add: mag split)
qed

lemma round_magnitude_mono:
  assumes "0 < a" "a \<le> b"
  shows "round_magnitude a \<le> round_magnitude b"
proof -
  define ea where "ea = max (ilog2 a - 52) (- 1074)"
  define eb where "eb = max (ilog2 b - 52) (- 1074)"
  from assms have b: "0 < b" by simp
  from ilog2_mono [OF assms] have il: "ilog2 a \<le> ilog2 b" .
  then have e_le: "ea \<le> eb" by (simp add: ea_def eb_def)
  show ?thesis
  proof (cases "ea = eb")
    case True
    from assms(2) have "a / pow2 ea \<le> b / pow2 ea"
      by (simp add: divide_right_mono less_imp_le)
    then have "round_half_even (a / pow2 ea) \<le> round_half_even (b / pow2 ea)"
      by (rule round_half_even_mono)
    then have "(of_int (round_half_even (a / pow2 ea)) :: rat) \<le> of_int (round_half_even (b / pow2 ea))"
      by (simp only: of_int_le_iff)
    then have "of_int (round_half_even (a / pow2 ea)) * pow2 ea
                 \<le> of_int (round_half_even (b / pow2 ea)) * pow2 ea"
      by (rule mult_right_mono) (rule less_imp_le [OF pow2_pos])
    with True show ?thesis
      by (simp add: round_magnitude_unfold ea_def eb_def)
  next
    case False
    with e_le have lt: "ea < eb" by simp
    then have normal: "- 1074 \<le> ilog2 b - 52" and "ilog2 a + 1 \<le> ilog2 b"
      by (simp_all add: ea_def eb_def max_def split: if_splits)
    from round_magnitude_upper [OF assms(1)] have "round_magnitude a \<le> pow2 (ilog2 a + 1)" .
    also from \<open>ilog2 a + 1 \<le> ilog2 b\<close> have "\<dots> \<le> pow2 (ilog2 b)" by (rule pow2_mono)
    also from b normal have "\<dots> \<le> round_magnitude b" by (rule round_magnitude_lower)
    finally show ?thesis .
  qed
qed

lemma round_to_double_not_NaN [simp]: "round_to_double x \<noteq> NaN"
  by (simp add: round_to_double_def Let_def)

lemma round_to_double_mono:
  assumes "x \<le> y"
  shows "\<not> dbl_less (round_to_double y) (round_to_double x)"
proof -
  have pos: "\<not> dbl_less (round_to_double b) (round_to_double a)" if "0 < a" "a \<le> b" for a b
  proof -
    from that have b: "0 < b" by simp
    from round_magnitude_mono [OF that] have m: "round_magnitude a \<le> round_magnitude b" .
    show ?thesis
    proof (cases "1024 \<le> ilog2 (round_magnitude a)")
      case True
      have "0 < round_magnitude a"
      proof (rule ccontr)
        assume "\<not> 0 < round_magnitude a"
        with round_magnitude_nonneg [of a] that(1) have "round_magnitude a = 0" by simp
        then have "ilog2 (round_magnitude a) = 0"
          by (simp add: ilog2_def bit_length.simps)
        with True show False by simp
      qed
      from ilog2_mono [OF this m] True have "1024 \<le> ilog2 (round_magnitude b)" by simp
      with that b show ?thesis
        by (simp add: round_to_double_def Let_def)
    next
      case False
      with that b m show ?thesis
        by (simp add: round_to_double_def Let_def)
    qed
  qed
  have neg: "\<not> dbl_less (round_to_double (- a)) (round_to_double (- b))" if "0 < a" "a \<le> b" for a b
  proof -
    from that have b: "0 < b" by simp
    from round_magnitude_mono [OF that] have m: "round_magnitude a \<le> round_magnitude b" .
    show ?thesis
    proof (cases "1024 \<le> ilog2 (round_magnitude a)")
      case True
      have "0 < round_magnitude a"
      proof (rule ccontr)
        assume "\<not> 0 < round_magnitude a"
        with round_magnitude_nonneg [of a] that(1) have "round_magnitude a = 0" by simp
        then have "ilog2 (round_magnitude a) = 0"
          by (simp add: ilog2_def bit_length.simps)
        with True show False by simp
      qed
      from ilog2_mono [OF this m] True have "1024 \<le> ilog2 (round_magnitude b)" by simp
      with True that b show ?thesis
        by (simp add: round_to_double_def Let_def)
    next
      case False
      with that b m show ?thesis
        by (simp add: round_to_double_def Let_def)
    qed
  qed
  have sign_pos: "round_to_double b = PosInf \<or> (\<exists>v. round_to_double b = Num v \<and> 0 \<le> v)" if "0 \<le> b" for b
    using that round_magnitude_nonneg [of b] by (auto simp: round_to_double_def Let_def)
  have sign_neg: "round_to_double a = NegInf \<or> (\<exists>v. round_to_double a = Num v \<and> v \<le> 0)" if "a \<le> 0" for a
    using that round_magnitude_nonneg [of "- a"] by (auto simp: round_to_double_def Let_def)
  consider "0 < x" | "x \<le> 0" "0 \<le> y" | "y < 0"
    using assms by linarith
  then show ?thesis
  proof cases
    case 1
    with assms show ?thesis by (intro pos)
  next
    case 2
    from sign_pos [OF 2(2)] sign_neg [OF 2(1)] show ?thesis
      by auto
  next
    case 3
    with assms have "0 < - y" "- y \<le> - x" by simp_all
    from neg [OF this] show ?thesis by simp
  qed
qed

lemma to_double_mono: "x \<le> y \<Longrightarrow> \<not> dbl_less (to_double y) (to_double x)"
  by (simp add: to_double_round round_to_double_mono)

lemma to_double_not_NaN [simp]: "to_double x \<noteq> NaN"
  by (simp add: to_double_round)

lemma pow2_nonzero [simp]: "pow2 e \<noteq> 0"
  by (metis pow2_pos less_irrefl)

lemma ilog2_unique:
  assumes "pow2 k \<le> x" "x < pow2 (k + 1)"
  shows "ilog2 x = k"
proof -
  from assms(1) have x: "0 < x" using pow2_pos [of k] by linarith
  from ilog2_ge [OF x assms(1)] have "k \<le> ilog2 x" .
  moreover have "ilog2 x \<le> k"
  proof (rule ccontr)
    assume "\<not> ilog2 x \<le> k"
    then have "k + 1 \<le> ilog2 x" by simp
    then have "pow2 (k + 1) \<le> pow2 (ilog2 x)" by (rule pow2_mono)
    with ilog2_bounds(1) [OF x] assms(2) show False by simp
  qed
  ultimately show ?thesis by simp
qed

text \<open>Rounding is to the nearest: the error is at most half the weight of the last bit.\<close>

lemma round_half_even_near: "\<bar>of_int (round_half_even x) - x\<bar> \<le> 1 / 2"
proof -
  have "of_int \<lfloor>x\<rfloor> \<le> x" "x < of_int \<lfloor>x\<rfloor> + 1"
    by linarith+
  then show ?thesis
    by (auto simp: round_half_even_def Let_def abs_le_iff)
qed

lemma round_magnitude_near:
  "\<bar>round_magnitude a - a\<bar> \<le> pow2 (max (ilog2 a - 52) (- 1074)) / 2"
proof -
  define e where "e = max (ilog2 a - 52) (- 1074)"
  have "round_magnitude a - a = (of_int (round_half_even (a / pow2 e)) - a / pow2 e) * pow2 e"
    by (simp add: round_magnitude_unfold e_def algebra_simps)
  then have "\<bar>round_magnitude a - a\<bar> = \<bar>of_int (round_half_even (a / pow2 e)) - a / pow2 e\<bar> * pow2 e"
    by (simp add: abs_mult less_imp_le)
  also have "\<dots> \<le> 1 / 2 * pow2 e"
    by (rule mult_right_mono [OF round_half_even_near]) (rule less_imp_le [OF pow2_pos])
  finally show ?thesis by (simp add: e_def)
qed

text \<open>A multiple of a representable power of two with at most 53 bits is a double.\<close>

lemma round_magnitude_fixed:
  assumes m: "0 < m" "m \<le> 2 ^ 53" and e: "- 1074 \<le> e"
  shows "round_magnitude (of_int m * pow2 e) = of_int m * pow2 e"
proof -
  define v where "v = of_int m * pow2 e"
  define b where "b = bit_length m"
  from bit_length_bounds [OF m(1)] have lo: "2 ^ nat (b - 1) \<le> m" and hi: "m < 2 ^ nat b"
    by (simp_all add: b_def)
  from bit_length_pos [OF m(1)] have b1: "1 \<le> b" by (simp add: b_def)
  have b54: "b \<le> 54"
  proof (rule ccontr)
    assume "\<not> b \<le> 54"
    then have "54 \<le> nat (b - 1)" by simp
    then have "(2::int) ^ 54 \<le> 2 ^ nat (b - 1)"
      by (rule power_increasing) simp
    with lo m(2) show False by simp
  qed
  have "pow2 (b - 1) = of_int (2 ^ nat (b - 1))"
    using b1 by (simp add: pow2_nonneg_exp)
  also from lo have "\<dots> \<le> of_int m" by (simp only: of_int_le_iff)
  finally have "pow2 (b - 1) * pow2 e \<le> of_int m * pow2 e"
    by (rule mult_right_mono) (rule less_imp_le [OF pow2_pos])
  then have vlo: "pow2 (b - 1 + e) \<le> v"
    by (simp add: v_def pow2_add)
  from hi have "(of_int m :: rat) < of_int (2 ^ nat b)" by (simp only: of_int_less_iff)
  also have "of_int (2 ^ nat b) = pow2 b"
    using b1 by (simp add: pow2_nonneg_exp)
  finally have "of_int m * pow2 e < pow2 b * pow2 e"
    by (rule mult_strict_right_mono) (rule pow2_pos)
  then have vhi: "v < pow2 (b - 1 + e + 1)"
    by (simp add: v_def pow2_add [symmetric])
  from ilog2_unique [OF vlo vhi] have il: "ilog2 v = b - 1 + e" .
  show ?thesis
  proof (cases "b \<le> 53")
    case True
    define e' where "e' = max (ilog2 v - 52) (- 1074)"
    from True e have le: "e' \<le> e" by (simp add: e'_def il)
    define k where "k = nat (e - e')"
    from le have "pow2 e = pow2 (int k) * pow2 e'"
      by (simp add: k_def pow2_add [symmetric])
    moreover have "pow2 (int k) = of_int (2 ^ k)"
      using pow2_nonneg_exp [of "int k"] by simp
    ultimately have pe: "pow2 e = of_int (2 ^ k) * pow2 e'" by simp
    have "v / pow2 e' = of_int (m * 2 ^ k)"
      by (simp add: v_def pe)
    then have "round_half_even (v / pow2 e') = m * 2 ^ k"
      by (simp only: round_half_even_of_int)
    then have "round_magnitude v = of_int (m * 2 ^ k) * pow2 e'"
      by (simp add: round_magnitude_unfold e'_def)
    also have "\<dots> = v"
      by (simp add: v_def pe)
    finally show ?thesis by (simp add: v_def)
  next
    case False
    with b54 have b: "b = 54" by simp
    with lo m(2) have m53: "m = 2 ^ 53" by simp
    from e b have e': "max (ilog2 v - 52) (- 1074) = e + 1" by (simp add: il)
    have "pow2 (1 + e) = pow2 1 * pow2 e" by (rule pow2_add)
    moreover have "pow2 1 = 2" by (simp add: pow2_def)
    ultimately have pe: "pow2 (e + 1) = 2 * pow2 e"
      by (simp add: add.commute)
    have "v / pow2 (e + 1) = of_int (2 ^ 52)"
      by (simp add: v_def pe m53)
    then have "round_half_even (v / pow2 (e + 1)) = 2 ^ 52"
      by (simp only: round_half_even_of_int)
    then have "round_magnitude v = of_int (2 ^ 52) * pow2 (e + 1)"
      by (simp add: round_magnitude_unfold e')
    also have "\<dots> = v"
      by (simp add: v_def pe m53)
    finally show ?thesis by (simp add: v_def)
  qed
qed

text \<open>The rounded magnitude is such a multiple.\<close>

lemma round_magnitude_shape:
  assumes "0 < a"
  shows "\<exists>m e. round_magnitude a = of_int m * pow2 e \<and> 0 \<le> m \<and> m \<le> 2 ^ 53 \<and> - 1074 \<le> e"
proof -
  define e where "e = max (ilog2 a - 52) (- 1074)"
  define q where "q = a / pow2 e"
  define k where "k = ilog2 a + 1 - e"
  have mag: "round_magnitude a = of_int (round_half_even q) * pow2 e"
    by (simp add: round_magnitude_unfold e_def q_def)
  have split: "pow2 (ilog2 a + 1) = pow2 k * pow2 e"
    by (simp add: k_def pow2_add [symmetric])
  from ilog2_bounds(2) [OF assms] have "a < pow2 k * pow2 e"
    by (simp add: split)
  then have q_lt: "q < pow2 k"
    by (simp add: q_def pos_divide_less_eq)
  have k53: "k \<le> 53" by (simp add: k_def e_def)
  from k53 have "pow2 k \<le> pow2 53" by (rule pow2_mono)
  also have "pow2 53 = of_int (2 ^ 53)"
    using pow2_nonneg_exp [of 53] by simp
  finally have "q \<le> of_int (2 ^ 53)" using q_lt by simp
  then have up: "round_half_even q \<le> 2 ^ 53" by (rule round_half_even_le)
  from assms have "of_int 0 \<le> q"
    by (simp add: q_def less_imp_le)
  then have "0 \<le> round_half_even q" by (rule round_half_even_ge)
  with up mag show ?thesis
    by (intro exI [of _ "round_half_even q"] exI [of _ e]) (simp add: e_def)
qed

lemma round_magnitude_idem:
  assumes "0 < a"
  shows "round_magnitude (round_magnitude a) = round_magnitude a"
proof -
  from round_magnitude_shape [OF assms] obtain m e
    where s: "round_magnitude a = of_int m * pow2 e" "0 \<le> m" "m \<le> 2 ^ 53" "- 1074 \<le> e"
    by blast
  show ?thesis
  proof (cases "m = 0")
    case True
    with s(1) have "round_magnitude a = 0" by simp
    moreover have "round_half_even 0 = 0"
      using round_half_even_of_int [of 0] by simp
    then have "round_magnitude 0 = 0"
      by (simp add: round_magnitude_unfold)
    ultimately show ?thesis by simp
  next
    case False
    with s(2) have "0 < m" by simp
    from round_magnitude_fixed [OF this s(3,4)] s(1) show ?thesis by simp
  qed
qed

text \<open>Rounding a double returns it: the results of the arithmetic are doubles.\<close>

lemma round_to_double_idem:
  assumes "round_to_double x = Num v"
  shows "round_to_double v = Num v"
proof (cases "x = 0")
  case True
  with assms show ?thesis by (simp add: round_to_double_def)
next
  case False
  define y where "y = round_magnitude \<bar>x\<bar>"
  from False have ax: "0 < \<bar>x\<bar>" by simp
  from False assms have small: "\<not> 1024 \<le> ilog2 y" and v: "v = (if 0 < x then y else - y)"
    by (auto simp: round_to_double_def Let_def y_def split: if_splits)
  from round_magnitude_nonneg [of "\<bar>x\<bar>"] have y0: "0 \<le> y" by (simp add: y_def)
  from v y0 have av: "\<bar>v\<bar> = y" by (auto split: if_splits)
  from round_magnitude_idem [OF ax] have idem: "round_magnitude y = y" by (simp add: y_def)
  show ?thesis
  proof (cases "y = 0")
    case True
    with v show ?thesis by (simp add: round_to_double_def)
  next
    case False
    with y0 have "0 < y" by simp
    with v False small idem av show ?thesis
      by (auto simp: round_to_double_def Let_def split: if_splits)
  qed
qed

lemma canon_idem: "canon (canon x) = canon x"
proof (cases x)
  case (Num a)
  show ?thesis
  proof (cases "to_double a")
    case (Num v)
    then have "to_double v = Num v"
      by (simp add: to_double_round round_to_double_idem)
    with Num \<open>x = Num a\<close> show ?thesis by simp
  qed (simp_all add: \<open>x = Num a\<close>)
qed simp_all

lemma js_add_canon: "canon (js_add x y) = js_add x y"
proof -
  have "canon (dbl_add a b) = dbl_add a b" if "canon a = a" "canon b = b" for a b
    using that by (cases a; cases b) (simp_all add: canon_idem [of "Num _", simplified])
  then show ?thesis
    by (simp add: js_add_def canon_idem)
qed

lemma js_mul_canon: "canon (js_mul x y) = js_mul x y"
proof -
  have "canon (dbl_mul a b) = dbl_mul a b" if "canon a = a" "canon b = b" for a b
    using that by (cases a; cases b) (simp_all add: canon_idem [of "Num _", simplified])
  then show ?thesis
    by (simp add: js_mul_def canon_idem)
qed




lemma js_mul_exact:
  "to_double a = Num a \<Longrightarrow> to_double b = Num b \<Longrightarrow> exact_integer (a * b) \<Longrightarrow>
   js_mul (Num a) (Num b) = Num (a * b)"
  by (simp add: js_mul_def to_double_def)

lemma to_double_3600: "to_double 3600 = Num 3600"
  by (simp add: to_double_def exact_integer_def)

text \<open>
  Other results are rounded: \<open>0.1 + 0.2\<close> is \<open>0.30000000000000004\<close>, \<open>3 * 0.1\<close>
  too, \<open>90 * 0.7\<close> is \<open>62.99999999999999\<close> and \<open>1.1 * 3600\<close> is
  \<open>3960.0000000000005\<close>.
\<close>

lemma double_examples:
  "js_add (Num (1 / 10)) (Num (2 / 10)) = Num (1351079888211149 / 4503599627370496)"
  "js_mul (Num 3) (Num (1 / 10)) = Num (1351079888211149 / 4503599627370496)"
  "js_mul (Num 90) (Num (7 / 10)) = Num (8866461766385663 / 140737488355328)"
  "js_mul (Num (11 / 10)) (Num 3600) = Num (8708132091985921 / 2199023255552)"
  by code_simp+

section \<open>Properties: objects keyed by problem id\<close>

lemma map_of_replace_other:
  "k' \<noteq> k \<Longrightarrow> map_of (map (\<lambda>(a, b). if a = k then (a, v) else (a, b)) obj) k' = map_of obj k'"
  by (induction obj) auto

lemma map_of_replace_same:
  "k \<in> fst ` set obj \<Longrightarrow> map_of (map (\<lambda>(a, b). if a = k then (a, v) else (a, b)) obj) k = Some v"
  by (induction obj) auto

lemma obj_get_obj_set:
  "obj_get (obj_set obj k v) k' = (if k' = k then Some v else obj_get obj k')"
proof (cases "k \<in> fst ` set obj")
  case True
  then show ?thesis
    by (simp add: obj_get_def obj_set_def map_of_replace_same map_of_replace_other)
next
  case False
  then have "map_of obj k = None"
    by (simp add: map_of_eq_None_iff)
  with False show ?thesis
    by (auto simp: obj_get_def obj_set_def map_add_def split: option.splits)
qed

section \<open>Properties of \<open>oi.stat\<close>\<close>




text \<open>
  With the scores 0.1 and 0.2 the additions round: the total is the double
  \<open>0.30000000000000004\<close>.
\<close>

lemma oi_stat_fractional_scores:
  "oi_score (oi_stat \<lparr> rule = RuleOi, pids = [7], beginAt = 0, endAt = 9000, penaltySince = None,
               penaltyRules = [], t_attend = 1 \<rparr>
       [\<lparr> rid = \<lparr> generationTime = 1, rest = 0 \<rparr>, pid = 7, accept = False, score = 1 / 10 \<rparr>,
        \<lparr> rid = \<lparr> generationTime = 2, rest = 1 \<rparr>, pid = 7, accept = False, score = 2 / 10 \<rparr>])
   = Num (1351079888211149 / 4503599627370496)"
  by code_simp

section \<open>Properties of the penalty coefficient of \<open>homework.stat\<close>\<close>

lemma last_sorted_Max:
  "sorted xs \<Longrightarrow> xs \<noteq> [] \<Longrightarrow> last xs = Max (set xs)"
proof (induction xs)
  case Nil
  then show ?case by simp
next
  case (Cons x xs)
  show ?case
  proof (cases "xs = []")
    case True
    then show ?thesis by simp
  next
    case False
    with Cons have "last xs = Max (set xs)" "\<forall>y\<in>set xs. x \<le> y"
      by simp_all
    with False show ?thesis
      by (simp add: max_def Max_ge_iff)
  qed
qed

lemma insort_num_Num: "insort_num (Num x) (map Num ys) = map Num (insort x ys)"
  by (induction ys) auto

lemma sort_nums_Num: "sort_nums (map Num xs) = map Num (sort xs)"
  by (induction xs) (simp_all add: sort_nums_def insort_num_Num)

text \<open>
  The test \<open>i * 3600 <= exceedSeconds\<close> passes for a smaller threshold when it passes
  for a larger one, the product being rounded monotonically; so the loop over the sorted
  thresholds ends with the multiplier looked up for the largest threshold that passes it.
  When the product is a whole number of at most \<open>2 ^ 53\<close> it is exact.
\<close>

lemma le_seconds_mono:
  "\<not> dbl_less b a \<Longrightarrow> a \<noteq> NaN \<Longrightarrow> b \<noteq> NaN \<Longrightarrow> le_seconds b e \<Longrightarrow> le_seconds a e"
  by (cases a; cases b) simp_all

lemma js_mul_3600: "to_double h = Num h \<Longrightarrow> js_mul (Num h) (Num 3600) = to_double (h * 3600)"
  by (simp add: js_mul_def to_double_3600)

lemma threshold_test_mono:
  assumes "to_double h = Num h" "to_double h' = Num h'" "h \<le> h'"
    and "le_seconds (js_mul (Num h') (Num 3600)) e"
  shows "le_seconds (js_mul (Num h) (Num 3600)) e"
proof -
  from assms(3) have "h * 3600 \<le> h' * 3600" by simp
  from to_double_mono [OF this] assms(4) show ?thesis
    by (simp add: js_mul_3600 assms(1,2) le_seconds_mono [where b = "to_double (h' * 3600)"])
qed

lemma threshold_test_exact:
  "to_double h = Num h \<Longrightarrow> exact_integer (h * 3600) \<Longrightarrow>
   le_seconds (js_mul (Num h) (Num 3600)) e \<longleftrightarrow> h * 3600 \<le> of_int e"
  by (simp add: js_mul_3600 to_double_def)

lemma coefficient_loop_sorted:
  assumes "sorted ks" and "\<forall>k\<in>set ks. to_double k = Num k"
  shows "coefficient_loop rules e c0 (map Num ks) =
     (if filter (\<lambda>k. le_seconds (js_mul (Num k) (Num 3600)) e) ks = [] then c0
      else (case rules_get rules (Num (last (filter (\<lambda>k. le_seconds (js_mul (Num k) (Num 3600)) e) ks))) of
              None \<Rightarrow> NaN | Some c \<Rightarrow> Num c))"
  using assms
proof (induction ks arbitrary: c0)
  case Nil
  then show ?case by simp
next
  case (Cons k ks)
  then have sorted_tl: "sorted ks" and le: "\<forall>k'\<in>set ks. k \<le> k'"
    and dbl_tl: "\<forall>k\<in>set ks. to_double k = Num k"
    and dbl: "to_double k = Num k"
    by simp_all
  show ?case
  proof (cases "le_seconds (js_mul (Num k) (Num 3600)) e")
    case True
    with Cons.IH [OF sorted_tl dbl_tl] show ?thesis
      by simp
  next
    case False
    have "\<not> le_seconds (js_mul (Num k') (Num 3600)) e" if "k' \<in> set ks" for k'
      using threshold_test_mono [of k k' e] dbl dbl_tl le that False by blast
    then have "filter (\<lambda>k. le_seconds (js_mul (Num k) (Num 3600)) e) ks = []"
      by (simp add: filter_empty_conv)
    with False show ?thesis
      by simp
  qed
qed

lemma canon_Num_fixed: "canon x = Num h \<Longrightarrow> to_double h = Num h"
  using canon_idem [of x] by simp

lemma rules_get_canonical:
  assumes "\<forall>kc\<in>set rules. canonical (fst kc) \<and> (\<exists>h. canon (parsed (fst kc)) = Num h)"
    and "kc0 \<in> set rules" "canon (parsed (fst kc0)) = Num h0"
  shows "\<exists>k c. (k, c) \<in> set rules \<and> canon (parsed k) = Num h0
               \<and> rules_get rules (Num h0) = Some c"
  using assms
proof (induction rules)
  case Nil
  then show ?case by simp
next
  case (Cons kc rules)
  from Cons.prems(1) obtain h where h: "canonical (fst kc)" "canon (parsed (fst kc)) = Num h"
    by auto
  from canon_Num_fixed [OF Cons.prems(3)] have h0: "to_double h0 = Num h0" .
  show ?case
  proof (cases "h = h0")
    case True
    with h h0 have "rules_get (kc # rules) (Num h0) = Some (snd kc)"
      by (simp add: rules_get_def)
    with h True show ?thesis
      by (metis list.set_intros(1) prod.collapse)
  next
    case False
    with h h0 have get: "rules_get (kc # rules) (Num h0) = rules_get rules (Num h0)"
      by (simp add: rules_get_def)
    from False h Cons.prems(2,3) have "kc0 \<in> set rules"
      by auto
    from Cons.IH [OF _ this Cons.prems(3)] Cons.prems(1) get show ?thesis
      by auto
  qed
qed

text \<open>
  Claim C5, amended.  Take an entry with raw score \<open>s\<close>, a \<open>penaltySince\<close> timestamp and
  a penalty table whose property names are the canonical spellings of finite thresholds.
  Let \<open>exceed\<close> be the submission instant minus \<open>penaltySince\<close> in seconds (rounded down,
  as the source does) and \<open>S\<close> the thresholds \<open>h\<close> of the table whose product
  \<open>h * 3600\<close>, a product of doubles, is at most \<open>exceed\<close>.  When \<open>exceed\<close> is negative
  the penalty-adjusted score is \<open>s\<close>; otherwise it is the product \<open>s * c\<close> of doubles,
  where \<open>c\<close> is the multiplier stored under the largest threshold of \<open>S\<close> when \<open>S\<close> is
  not empty, and \<open>c = 1\<close> when no threshold qualifies.  When the products \<open>h * 3600\<close> are
  whole numbers of at most \<open>2 ^ 53\<close> (whole hours, half hours, quarters of an hour), they
  are exact and \<open>S\<close> is the set of the thresholds with \<open>h * 3600 \<le> exceed\<close>.
\<close>

theorem penaltyScore_spec:
  assumes since: "penaltySince t = Some since"
    and keys: "\<forall>kc\<in>set (penaltyRules t).
                 canonical (fst kc) \<and> (\<exists>h. canon (parsed (fst kc)) = Num h)"
  shows "let exceed = \<lfloor>of_int (generationTime (rid j)) - (of_int since :: rat) / 1000\<rfloor>;
             S = {h. \<exists>kc\<in>set (penaltyRules t).
                       canon (parsed (fst kc)) = Num h
                     \<and> le_seconds (js_mul (Num h) (Num 3600)) exceed}
         in (exceed < 0 \<longrightarrow> penaltyScore t j = Inr (Num (score j)))
          \<and> (0 \<le> exceed \<and> S = {} \<longrightarrow> penaltyScore t j = Inr (js_mul (Num (score j)) (Num 1)))
          \<and> (0 \<le> exceed \<and> S \<noteq> {} \<longrightarrow>
               (\<exists>k c. (k, c) \<in> set (penaltyRules t) \<and> canon (parsed k) = Num (Max S)
                      \<and> penaltyScore t j = Inr (js_mul (Num (score j)) (Num c))))
          \<and> ((\<forall>kc\<in>set (penaltyRules t). \<forall>h. canon (parsed (fst kc)) = Num h
                                               \<longrightarrow> exact_integer (h * 3600))
               \<longrightarrow> S = {h. \<exists>kc\<in>set (penaltyRules t).
                             canon (parsed (fst kc)) = Num h \<and> h * 3600 \<le> of_int exceed})"
proof -
  define exceed where "exceed = \<lfloor>of_int (generationTime (rid j)) - (of_int since :: rat) / 1000\<rfloor>"
  define test where "test = (\<lambda>h. le_seconds (js_mul (Num h) (Num 3600)) exceed)"
  define thr where "thr = map (\<lambda>kc. case canon (parsed (fst kc)) of Num h \<Rightarrow> h | _ \<Rightarrow> 0)
                            (penaltyRules t)"
  define ks where "ks = sort thr"
  define qs where "qs = filter test ks"
  define S where "S = {h. \<exists>kc\<in>set (penaltyRules t). canon (parsed (fst kc)) = Num h \<and> test h}"
  have canon_thr: "map (\<lambda>kc. canon (parsed (fst kc))) (penaltyRules t) = map Num thr"
    unfolding thr_def using keys by (induction "penaltyRules t") auto
  have set_thr: "set thr = {h. \<exists>kc\<in>set (penaltyRules t). canon (parsed (fst kc)) = Num h}"
  proof -
    have "(case canon (parsed (fst kc)) of Num h \<Rightarrow> h | _ \<Rightarrow> 0) = h
            \<longleftrightarrow> canon (parsed (fst kc)) = Num h"
      if "kc \<in> set (penaltyRules t)" for kc h
      using keys that by (auto split: jsnum.splits)
    then have "h \<in> set thr \<longleftrightarrow> (\<exists>kc\<in>set (penaltyRules t). canon (parsed (fst kc)) = Num h)" for h
      unfolding thr_def set_map image_iff by (metis (no_types, lifting))
    then show ?thesis
      by blast
  qed
  have dbl: "\<forall>k\<in>set ks. to_double k = Num k"
    by (auto simp: ks_def set_thr dest: canon_Num_fixed)
  have rule_keys: "rule_keys (penaltyRules t) = map Num ks"
    by (simp add: rule_keys_def canon_thr sort_nums_Num ks_def)
  have set_qs: "set qs = S"
    by (auto simp: qs_def ks_def S_def set_thr)
  have sorted_qs: "sorted qs"
    by (simp add: qs_def ks_def sorted_wrt_filter)
  have loop: "coefficient_loop (penaltyRules t) exceed (Num 1) (map Num ks) =
              (if qs = [] then Num 1
               else (case rules_get (penaltyRules t) (Num (last qs)) of None \<Rightarrow> NaN | Some c \<Rightarrow> Num c))"
    unfolding qs_def test_def by (rule coefficient_loop_sorted) (simp_all add: ks_def dbl [unfolded ks_def])
  have neg: "exceed < 0 \<Longrightarrow> penaltyScore t j = Inr (Num (score j))"
    using since by (simp add: penaltyScore_def exceed_def)
  have none: "penaltyScore t j = Inr (js_mul (Num (score j)) (Num 1))" if "0 \<le> exceed" "S = {}"
  proof -
    from that set_qs have "qs = []" by simp
    with that(1) since loop show ?thesis
      by (simp add: penaltyScore_def Let_def rule_keys flip: exceed_def)
  qed
  have some: "\<exists>k c. (k, c) \<in> set (penaltyRules t) \<and> canon (parsed k) = Num (Max S)
                  \<and> penaltyScore t j = Inr (js_mul (Num (score j)) (Num c))"
    if "0 \<le> exceed" "S \<noteq> {}"
  proof -
    from that set_qs have ne: "qs \<noteq> []" by auto
    with sorted_qs set_qs have last_qs: "last qs = Max S"
      by (simp add: last_sorted_Max)
    from ne have "last qs \<in> set qs" by simp
    with set_qs obtain kc0 where kc0: "kc0 \<in> set (penaltyRules t)"
      "canon (parsed (fst kc0)) = Num (last qs)"
      by (auto simp: S_def)
    from rules_get_canonical [OF keys kc0] obtain k c
      where kc: "(k, c) \<in> set (penaltyRules t)" "canon (parsed k) = Num (last qs)"
        "rules_get (penaltyRules t) (Num (last qs)) = Some c"
      by blast
    with that(1) since loop ne have "penaltyScore t j = Inr (js_mul (Num (score j)) (Num c))"
      by (simp add: penaltyScore_def Let_def rule_keys flip: exceed_def)
    with kc last_qs show ?thesis by auto
  qed
  have exact: "S = {h. \<exists>kc\<in>set (penaltyRules t).
                      canon (parsed (fst kc)) = Num h \<and> h * 3600 \<le> of_int exceed}"
    if ex: "\<forall>kc\<in>set (penaltyRules t). \<forall>h. canon (parsed (fst kc)) = Num h
                                          \<longrightarrow> exact_integer (h * 3600)"
  proof -
    have "test h \<longleftrightarrow> h * 3600 \<le> of_int exceed"
      if "kc \<in> set (penaltyRules t)" "canon (parsed (fst kc)) = Num h" for kc h
    proof -
      from that(2) have "to_double h = Num h" by (rule canon_Num_fixed)
      moreover from ex that have "exact_integer (h * 3600)" by blast
      ultimately show ?thesis
        unfolding test_def by (rule threshold_test_exact)
    qed
    then show ?thesis
      unfolding S_def by blast
  qed
  from neg none some exact show ?thesis
    unfolding Let_def exceed_def [symmetric] S_def [symmetric, unfolded test_def] by blast
qed

text \<open>
  The claim as stated, for every penalty table, fails.  With the table \<open>{'1.1': 0.5}\<close> a
  submission 3960 seconds after \<open>penaltySince\<close> has reached the threshold
  (\<open>1.1 * 3600 = 3960\<close>), but the product of doubles is \<open>3960.0000000000005\<close> and the
  score stays 100.  With \<open>{'0.1': 0.5}\<close> a submission 360 seconds after is halved,
  although \<open>parseFloat('0.1')\<close> times 3600 is above 360: the test is neither the one on
  the thresholds as written nor the one on their doubles.  With \<open>{'1.0': 0.5}\<close> the lookup
  \<open>tdoc.penaltyRules[1]\<close> finds no property \<open>'1'\<close> and the score two hours after is
  \<open>NaN\<close>.
\<close>

theorem penaltyScore_spec_counterexample:
  "penaltyScore (hw_example\<lparr> penaltyRules := [(\<lparr> parsed = Num (11 / 10), canonical = True \<rparr>, 1 / 2)] \<rparr>)
     (entry_at (1000 + 3960) 0 True 100) = Inr (Num 100)
   \<and> (11 / 10 :: rat) * 3600 \<le> 3960
   \<and> penaltyScore (hw_example\<lparr> penaltyRules := [(\<lparr> parsed = Num (1 / 10), canonical = True \<rparr>, 1 / 2)] \<rparr>)
       (entry_at (1000 + 360) 0 True 100) = Inr (Num 50)
   \<and> canon (Num (1 / 10)) = Num (3602879701896397 / 36028797018963968)
   \<and> (360 :: rat) < 3602879701896397 / 36028797018963968 * 3600
   \<and> penaltyScore (hw_example\<lparr> penaltyRules := [(\<lparr> parsed = Num 1, canonical = False \<rparr>, 1 / 2)] \<rparr>)
       (entry_at (1000 + 2 * 3600) 0 True 100) = Inr NaN"
  by code_simp

text \<open>
  The example of the spec: with the table \<open>{1: 0.8, 3: 0.5}\<close> and the score 100 a
  submission two hours after \<open>penaltySince\<close> pays 0.8, one four hours after pays 0.5, one
  before pays 1.
\<close>

lemma round_examples:
  "js_mul (Num 100) (Num (4 / 5)) = Num 80"
  "js_mul (Num 100) (Num (1 / 2)) = Num 50"
  "js_mul (Num 100) (Num 1) = Num 100"
  by code_simp+

theorem penaltyScore_spec_witness:
  "penaltyScore hw_example (entry_at (1000 + 2 * 3600) 0 True 100) = Inr (Num 80)
   \<and> penaltyScore hw_example (entry_at (1000 + 4 * 3600) 0 True 100) = Inr (Num 50)
   \<and> penaltyScore hw_example (entry_at 999 0 True 100) = Inr (Num 100)"
proof -
  have since: "penaltySince hw_example = Some 1000000"
    by (simp add: hw_example_def)
  have td: "to_double 1 = Num 1" "to_double 3 = Num 3"
    by (simp_all add: to_double_def exact_integer_def)
  have whole: "exact_integer (1 * 3600)" "exact_integer (3 * 3600)"
    by (simp_all add: exact_integer_def)
  have keys: "\<forall>kc\<in>set (penaltyRules hw_example).
                 canonical (fst kc) \<and> (\<exists>h. canon (parsed (fst kc)) = Num h)"
    by (simp add: hw_example_def td)
  have exact: "\<forall>kc\<in>set (penaltyRules hw_example).
                 \<forall>h. canon (parsed (fst kc)) = Num h \<longrightarrow> exact_integer (h * 3600)"
    using whole by (auto simp: hw_example_def td)
  have S2: "{h. \<exists>kc\<in>set (penaltyRules hw_example). canon (parsed (fst kc)) = Num h
              \<and> h * 3600 \<le> of_int \<lfloor>of_int (generationTime (rid (entry_at (1000 + 2 * 3600) 0 True 100)))
                                   - (of_int 1000000 :: rat) / 1000\<rfloor>} = {1}"
    by (auto simp: hw_example_def entry_at_def td)
  have S4: "{h. \<exists>kc\<in>set (penaltyRules hw_example). canon (parsed (fst kc)) = Num h
              \<and> h * 3600 \<le> of_int \<lfloor>of_int (generationTime (rid (entry_at (1000 + 4 * 3600) 0 True 100)))
                                   - (of_int 1000000 :: rat) / 1000\<rfloor>} = {1, 3}"
    by (auto simp: hw_example_def entry_at_def td)
  have two: "penaltyScore hw_example (entry_at (1000 + 2 * 3600) 0 True 100) = Inr (Num 80)"
  proof -
    note inst = penaltyScore_spec [OF since keys, of "entry_at (1000 + 2 * 3600) 0 True 100",
        unfolded Let_def]
    from inst exact have "{h. \<exists>kc\<in>set (penaltyRules hw_example). canon (parsed (fst kc)) = Num h
              \<and> le_seconds (js_mul (Num h) (Num 3600))
                   \<lfloor>of_int (generationTime (rid (entry_at (1000 + 2 * 3600) 0 True 100)))
                      - (of_int 1000000 :: rat) / 1000\<rfloor>} = {1}"
      unfolding S2 [symmetric] by blast
    from inst [unfolded this]
    obtain k c where kc: "(k, c) \<in> set (penaltyRules hw_example)" "canon (parsed k) = Num 1"
      and r: "penaltyScore hw_example (entry_at (1000 + 2 * 3600) 0 True 100)
                = Inr (js_mul (Num 100) (Num c))"
      by (auto simp: entry_at_def)
    from kc have "c = 4 / 5" by (auto simp: hw_example_def td)
    with r round_examples(1) show ?thesis by simp
  qed
  have four: "penaltyScore hw_example (entry_at (1000 + 4 * 3600) 0 True 100) = Inr (Num 50)"
  proof -
    note inst = penaltyScore_spec [OF since keys, of "entry_at (1000 + 4 * 3600) 0 True 100",
        unfolded Let_def]
    from inst exact have "{h. \<exists>kc\<in>set (penaltyRules hw_example). canon (parsed (fst kc)) = Num h
              \<and> le_seconds (js_mul (Num h) (Num 3600))
                   \<lfloor>of_int (generationTime (rid (entry_at (1000 + 4 * 3600) 0 True 100)))
                      - (of_int 1000000 :: rat) / 1000\<rfloor>} = {1, 3}"
      unfolding S4 [symmetric] by blast
    from inst [unfolded this]
    obtain k c where kc: "(k, c) \<in> set (penaltyRules hw_example)" "canon (parsed k) = Num 3"
      and r: "penaltyScore hw_example (entry_at (1000 + 4 * 3600) 0 True 100)
                = Inr (js_mul (Num 100) (Num c))"
      by (auto simp: entry_at_def)
    from kc have "c = 1 / 2" by (auto simp: hw_example_def td)
    with r round_examples(2) show ?thesis by simp
  qed
  have before: "penaltyScore hw_example (entry_at 999 0 True 100) = Inr (Num 100)"
    using penaltyScore_spec [OF since keys, of "entry_at 999 0 True 100"]
    by (simp add: entry_at_def Let_def)
  from two four before show ?thesis by blast
qed

section \<open>Evaluations of \<open>acm.stat\<close>\<close>

lemmas acm_unfold = acm_stat_def acm_select_def acm_step_def acm_details_def acm_detail_of_def
  acm_time_of_def acm_totals_def obj_get_def obj_set_def obj_entries_def is_array_index_def
  bool_to_number_def acm_example_def entry_at_def num_unfold

text \<open>
  Claim C1.  The claim gives a problem accepted with no earlier rejection the elapsed
  time "submission instant minus begin instant".  In the source \<open>naccept[pid]\<close> is only
  assigned on a rejection, so for such a problem \<open>20 * 60 * naccept[pid]\<close> multiplies
  \<open>undefined\<close>: the entry's time and the total time are \<open>NaN\<close>.  With the contest
  beginning at second 500 and one accepted submission at second 600, the claim gives time
  100; \<open>acm.stat\<close> returns \<open>NaN\<close>.
\<close>

theorem acm_stat_first_try_accept:
  "acm_stat acm_example [entry_at 600 1 True 100] =
     \<lparr> acm_accept = Num 1, acm_time = NaN,
       acm_detail = [\<lparr> rid = \<lparr> generationTime = 600, rest = 0 \<rparr>, pid = 1, accept = True,
                       score = 100, naccept = None, time = NaN \<rparr>] \<rparr>"
  by (simp add: acm_unfold)

text \<open>
  The example of the spec, where the problem has earlier rejections, evaluates as the
  claim says: two rejections, then an acceptance at second 800, give \<open>naccept = 2\<close> and the
  time \<open>(800 - 500) + 40 * 60\<close>.
\<close>

lemma acm_stat_two_rejections:
  "acm_stat acm_example [entry_at 600 1 False 0, entry_at 700 1 False 0, entry_at 800 1 True 100] =
     \<lparr> acm_accept = Num 1, acm_time = Num ((800 - 500) + 40 * 60),
       acm_detail = [\<lparr> rid = \<lparr> generationTime = 800, rest = 0 \<rparr>, pid = 1, accept = True,
                       score = 100, naccept = Some 2, time = Num ((800 - 500) + 40 * 60) \<rparr>] \<rparr>"
  by (simp add: acm_unfold)

section \<open>Evaluations of \<open>homework.stat\<close>\<close>

lemmas hw_unfold = homework_stat_def hw_step_def array_get_def obj_get_def obj_set_def
  obj_entries_def is_array_index_def hw_detail_of_def penaltyScore_def hw_example_def entry_at_def
  Math_sum_def detail_penaltySince_def num_unfold

text \<open>
  Claim C2.  The claim has the selection keep replacing the retained entry of a problem
  until it is an acceptance, consulting the candidate's own accept flag.  The source
  tests \<open>!effective[j.pid] && journal[j.pid].accept\<close>: it never replaces a retained entry,
  and the flag it reads is that of the journal entry at array index \<open>j.pid\<close>.  For
  problem 1 rejected and then accepted, the entry at index 1 is the acceptance, so the
  rejected first entry is retained; for problem 0 rejected and then accepted, the entry at
  index 0 is the rejection, so nothing is retained; for problem 1000 and a journal of one
  entry the lookup is \<open>undefined\<close> and reading its flag throws.
\<close>

theorem homework_select_indexes_journal:
  "hw_select (hw_example\<lparr>pids := [1]\<rparr>) [entry_at 600 1 False 0, entry_at 700 1 True 100] []
       [entry_at 600 1 False 0, entry_at 700 1 True 100] = Inr [(1, entry_at 600 1 False 0)]
   \<and> hw_select hw_example [entry_at 600 0 False 0, entry_at 700 0 True 100] []
       [entry_at 600 0 False 0, entry_at 700 0 True 100] = Inr []
   \<and> hw_select (hw_example\<lparr>pids := [1000]\<rparr>) [entry_at 600 1000 True 100] []
       [entry_at 600 1000 True 100] = Inl TypeError"
  by (simp add: hw_unfold)

text \<open>
  Claim C6.  The claim gives the totals as sums over the effective entries.  The source
  computes each entry's time by \<open>time(j)\<close> with \<open>j\<close> the key of the \<open>for ... in\<close> loop,
  so \<open>jdoc.rid.generationTime\<close> throws as soon as one entry is effective (and the total
  \<open>penaltyScore\<close> would add up \<open>d.penaltySince\<close>, a property no detail item has).  For
  problem 0 accepted once with score 100 the claim gives score 100; \<open>homework.stat\<close>
  throws a \<open>TypeError\<close>.
\<close>

theorem homework_stat_throws_on_effective_entry:
  "homework_stat hw_example [entry_at 600 0 True 100] = Inl TypeError"
  by (simp add: hw_unfold)

text \<open>When no entry is effective the totals are the empty sums.\<close>

lemma homework_stat_empty:
  "homework_stat hw_example [entry_at 600 0 False 0, entry_at 700 0 True 100] =
    Inr \<lparr> hws_score = Num 0, hws_penaltyScore = Num 0, hws_time = Num 0, hws_detail = [] \<rparr>"
  by (simp add: hw_unfold)

section \<open>Further properties of \<open>homework.stat\<close>\<close>

lemma hw_detail_of_throws: "\<exists>e. hw_detail_of t kv = Inl e"
  by (cases kv) (auto simp: hw_detail_of_def split: sum.splits)

lemma hw_details_Inr: "hw_details t kvs = Inr ds \<Longrightarrow> kvs = [] \<and> ds = []"
proof (cases kvs)
  case Nil
  then show "hw_details t kvs = Inr ds \<Longrightarrow> kvs = [] \<and> ds = []" by simp
next
  case (Cons kv rest)
  assume "hw_details t kvs = Inr ds"
  moreover from hw_detail_of_throws obtain e where "hw_detail_of t kv = Inl e" by blast
  ultimately show "kvs = [] \<and> ds = []" using Cons by simp
qed

text \<open>
  Whenever \<open>homework.stat\<close> returns, no entry was effective and all totals are zero:
  with an effective entry the detail loop throws.
\<close>

theorem homework_stat_returns_empty:
  "homework_stat t jnl = Inr st \<Longrightarrow>
   st = \<lparr> hws_score = Num 0, hws_penaltyScore = Num 0, hws_time = Num 0, hws_detail = [] \<rparr>"
  by (auto simp: homework_stat_def Math_sum_def split: sum.splits dest!: hw_details_Inr)

text \<open>A journal for which nothing is retained.\<close>

theorem homework_stat_returns_empty_witness:
  "homework_stat hw_example [entry_at 600 0 False 0, entry_at 700 0 True 100]
     = Inr \<lparr> hws_score = Num 0, hws_penaltyScore = Num 0, hws_time = Num 0, hws_detail = [] \<rparr>"
proof -
  have "\<exists>st. homework_stat hw_example
               [entry_at 600 0 False 0, entry_at 700 0 True 100] = Inr st"
    by (simp add: hw_unfold)
  then obtain st where st: "homework_stat hw_example
               [entry_at 600 0 False 0, entry_at 700 0 True 100] = Inr st" ..
  from homework_stat_returns_empty [OF st] st show ?thesis by simp
qed

section \<open>Further properties of \<open>acm.stat\<close>\<close>

lemma takeWhile_snoc:
  "takeWhile P (xs @ [x]) = (if \<forall>y\<in>set xs. P y then (if P x then xs @ [x] else xs) else takeWhile P xs)"
  by (induction xs) auto

lemma find_snoc:
  "find P (xs @ [x]) = (case find P xs of Some a \<Rightarrow> Some a | None \<Rightarrow> if P x then Some x else None)"
  by (induction xs) auto

lemma acm_select_spec:
  assumes "acm_select t jnl = (nacc, effective)"
  shows "obj_get effective p =
           (if p \<in> set (pids t)
            then (case find accept (filter (\<lambda>j. pid j = p) jnl) of
                    Some a \<Rightarrow> Some a
                  | None \<Rightarrow> if filter (\<lambda>j. pid j = p) jnl = [] then None
                            else Some (last (filter (\<lambda>j. pid j = p) jnl)))
            else None)
       \<and> obj_get nacc p =
           (if p \<in> set (pids t) \<and> takeWhile (\<lambda>j. \<not> accept j) (filter (\<lambda>j. pid j = p) jnl) \<noteq> []
            then Some (length (takeWhile (\<lambda>j. \<not> accept j) (filter (\<lambda>j. pid j = p) jnl)))
            else None)"
  using assms
proof (induction jnl arbitrary: nacc effective rule: rev_induct)
  case Nil
  then show ?case by (simp add: acm_select_def obj_get_def)
next
  case (snoc j js)
  obtain nacc0 eff0 where st: "acm_select t js = (nacc0, eff0)"
    by (cases "acm_select t js")
  note ih = snoc.IH [OF st]
  from snoc.prems st have step: "acm_step t (nacc0, eff0) j = (nacc, effective)"
    by (simp add: acm_select_def)
  define es where "es = filter (\<lambda>j. pid j = p) js"
  have eff0: "obj_get eff0 p =
           (if p \<in> set (pids t)
            then (case find accept es of Some a \<Rightarrow> Some a
                  | None \<Rightarrow> if es = [] then None else Some (last es))
            else None)"
    and nacc0: "obj_get nacc0 p =
           (if p \<in> set (pids t) \<and> takeWhile (\<lambda>j. \<not> accept j) es \<noteq> []
            then Some (length (takeWhile (\<lambda>j. \<not> accept j) es)) else None)"
    using ih unfolding es_def by simp_all
  show ?case
  proof (cases "pid j = p \<and> p \<in> set (pids t)")
    case False
    with step have unchanged: "obj_get effective p = obj_get eff0 p" "obj_get nacc p = obj_get nacc0 p"
      by (auto simp: acm_step_def obj_get_obj_set split: if_splits)
    show ?thesis
    proof (cases "p \<in> set (pids t)")
      case True
      with False have other: "filter (\<lambda>j. pid j = p) (js @ [j]) = es"
        by (simp add: es_def)
      show ?thesis
        unfolding other using eff0 nacc0 unchanged by simp
    next
      case False
      with eff0 nacc0 unchanged show ?thesis by simp
    qed
  next
    case True
    then have fil: "filter (\<lambda>j. pid j = p) (js @ [j]) = es @ [j]"
      by (simp add: es_def)
    show ?thesis
    proof (cases "find accept es")
      case None
      then have noacc: "\<forall>y\<in>set es. \<not> accept y"
        by (simp add: find_None_iff)
      then have tw: "takeWhile (\<lambda>j. \<not> accept j) es = es"
        by (simp add: takeWhile_eq_all_conv)
      have retained: "\<not> (case obj_get eff0 p of None \<Rightarrow> False | Some e \<Rightarrow> accept e)"
        using eff0 None True noacc by (cases "es = []") auto
      from step True retained
      have eff: "effective = obj_set eff0 p j"
        and nacc: "nacc = (if \<not> accept j
                           then obj_set nacc0 p ((case obj_get nacc0 p of None \<Rightarrow> 0 | Some n \<Rightarrow> n) + 1)
                           else nacc0)"
        by (auto simp: acm_step_def)
      have "obj_get effective p = Some j"
        by (simp add: eff obj_get_obj_set)
      moreover have "(case find accept (es @ [j]) of Some a \<Rightarrow> Some a
                      | None \<Rightarrow> if es @ [j] = [] then None else Some (last (es @ [j]))) = Some j"
        by (simp add: find_snoc None)
      moreover have "obj_get nacc p =
           (if takeWhile (\<lambda>j. \<not> accept j) (es @ [j]) \<noteq> []
            then Some (length (takeWhile (\<lambda>j. \<not> accept j) (es @ [j]))) else None)"
        using nacc0 True noacc tw
        by (cases "es = []") (auto simp: nacc obj_get_obj_set takeWhile_snoc)
      ultimately show ?thesis
        unfolding fil using True by simp
    next
      case (Some a)
      then have acc: "accept a" "a \<in> set es"
        by (auto simp: find_Some_iff)
      then have notall: "\<not> (\<forall>y\<in>set es. \<not> accept y)" by blast
      have retained: "(case obj_get eff0 p of None \<Rightarrow> False | Some e \<Rightarrow> accept e)"
        using eff0 Some True acc by simp
      from step True retained have "effective = eff0" "nacc = nacc0"
        by (auto simp: acm_step_def)
      moreover from notall have "takeWhile (\<lambda>j. \<not> accept j) (es @ [j]) = takeWhile (\<lambda>j. \<not> accept j) es"
        by (auto simp: takeWhile_snoc)
      moreover from Some have "find accept (es @ [j]) = Some a"
        by (simp add: find_snoc)
      ultimately show ?thesis
        unfolding fil using eff0 nacc0 True Some by simp
    qed
  qed
qed


text \<open>
  The selection loop of \<open>acm.stat\<close>.  For a problem \<open>p\<close> of the contest, the effective
  entry is the first accepted entry of \<open>p\<close> in the journal if there is one, otherwise the
  last entry of \<open>p\<close>; \<open>naccept[p]\<close> is the number of entries of \<open>p\<close> before its first
  acceptance, and is absent when that number is zero.  Nothing is retained for other
  problem ids.
\<close>

theorem acm_select_effective:
  "obj_get (snd (acm_select t jnl)) p =
     (if p \<in> set (pids t)
      then (case find accept (filter (\<lambda>j. pid j = p) jnl) of
              Some a \<Rightarrow> Some a
            | None \<Rightarrow> if filter (\<lambda>j. pid j = p) jnl = [] then None
                      else Some (last (filter (\<lambda>j. pid j = p) jnl)))
      else None)
   \<and> obj_get (fst (acm_select t jnl)) p =
     (if p \<in> set (pids t) \<and> takeWhile (\<lambda>j. \<not> accept j) (filter (\<lambda>j. pid j = p) jnl) \<noteq> []
      then Some (length (takeWhile (\<lambda>j. \<not> accept j) (filter (\<lambda>j. pid j = p) jnl)))
      else None)"
  using acm_select_spec [of t jnl "fst (acm_select t jnl)" "snd (acm_select t jnl)" p]
  by simp

text \<open>
  Two rejections, an acceptance and a later rejection of problem 1: the acceptance is
  effective and \<open>naccept[1] = 2\<close>.
\<close>

theorem acm_select_effective_witness:
  "obj_get (snd (acm_select acm_example
       [entry_at 600 1 False 0, entry_at 700 1 False 0, entry_at 800 1 True 100,
        entry_at 900 1 False 0])) 1 = Some (entry_at 800 1 True 100)
   \<and> obj_get (fst (acm_select acm_example
       [entry_at 600 1 False 0, entry_at 700 1 False 0, entry_at 800 1 True 100,
        entry_at 900 1 False 0])) 1 = Some 2"
  using acm_select_effective [of acm_example
       "[entry_at 600 1 False 0, entry_at 700 1 False 0, entry_at 800 1 True 100,
         entry_at 900 1 False 0]" 1]
  by (simp add: acm_example_def entry_at_def)

lemma acm_stat_detail:
  "acm_detail (acm_stat t jnl) = acm_details t (fst (acm_select t jnl)) (snd (acm_select t jnl))"
  by (simp add: acm_stat_def Let_def split: prod.splits)

lemma acm_detail_of_time:
  "time (acm_detail_of t nacc j) =
     (case naccept (acm_detail_of t nacc j) of
        None \<Rightarrow> NaN
      | Some n \<Rightarrow> js_add (Num (of_int (generationTime (rid (acm_detail_of t nacc j))
                                          - beginAt t div 1000)))
                         (js_mul (Num (20 * 60)) (Num (of_nat n))))"
  by (cases "obj_get nacc (pid j)") (simp_all add: acm_detail_of_def acm_time_of_def)

text \<open>
  Every detail item of \<open>acm.stat\<close> carries \<open>naccept[pid]\<close> of its problem; its time is
  the creation instant minus the begin instant in seconds plus \<open>20 * 60 * naccept\<close> when
  \<open>naccept[pid]\<close> is present, and \<open>NaN\<close> when it is absent.
\<close>

theorem acm_detail_time:
  "\<forall>d\<in>set (acm_detail (acm_stat t jnl)).
     naccept d = obj_get (fst (acm_select t jnl)) (pid d)
   \<and> time d = (case naccept d of
                 None \<Rightarrow> NaN
               | Some n \<Rightarrow> js_add (Num (of_int (generationTime (rid d) - beginAt t div 1000)))
                                  (js_mul (Num (20 * 60)) (Num (of_nat n))))"
proof
  fix d assume "d \<in> set (acm_detail (acm_stat t jnl))"
  then obtain j where d: "d = acm_detail_of t (fst (acm_select t jnl)) j"
    by (auto simp: acm_stat_detail acm_details_def)
  have "naccept d = obj_get (fst (acm_select t jnl)) (pid d)"
    by (simp add: d acm_detail_of_def)
  moreover have "time d = (case naccept d of
                 None \<Rightarrow> NaN
               | Some n \<Rightarrow> js_add (Num (of_int (generationTime (rid d) - beginAt t div 1000)))
                                  (js_mul (Num (20 * 60)) (Num (of_nat n))))"
    unfolding d by (rule acm_detail_of_time)
  ultimately show "naccept d = obj_get (fst (acm_select t jnl)) (pid d)
   \<and> time d = (case naccept d of
                 None \<Rightarrow> NaN
               | Some n \<Rightarrow> js_add (Num (of_int (generationTime (rid d) - beginAt t div 1000)))
                                  (js_mul (Num (20 * 60)) (Num (of_nat n))))"
    by simp
qed

text \<open>Problem 1 accepted at the first attempt, problem 2 rejected once.\<close>

theorem acm_detail_time_witness:
  "acm_detail (acm_stat acm_example [entry_at 600 1 True 100, entry_at 700 2 False 0])
     = [\<lparr> rid = \<lparr> generationTime = 600, rest = 0 \<rparr>, pid = 1, accept = True, score = 100,
          naccept = None, time = NaN \<rparr>,
        \<lparr> rid = \<lparr> generationTime = 700, rest = 0 \<rparr>, pid = 2, accept = False, score = 0,
          naccept = Some 1, time = Num ((700 - 500) + 20 * 60) \<rparr>]"
  using acm_detail_time [of acm_example "[entry_at 600 1 True 100, entry_at 700 2 False 0]"]
  by (simp add: acm_unfold)

section \<open>Properties of \<open>ranked\<close> and \<open>acm.rank\<close>\<close>

lemma snd_ranked_from: "map snd (ranked_from equ n r d docs) = docs"
  by (induction docs arbitrary: n r d) (simp_all add: Let_def)

lemma snd_ranked: "map snd (ranked docs equ) = docs"
  by (cases docs) (simp_all add: snd_ranked_from)

lemma length_ranked_from: "length (ranked_from equ n r d docs) = length docs"
  using snd_ranked_from [of equ n r d docs] by (metis length_map)

lemma length_ranked: "length (ranked docs equ) = length docs"
  using snd_ranked [of docs equ] by (metis length_map)

text \<open>
  The rank that \<open>ranked_from\<close> gives the record at index \<open>i\<close>: the inherited rank \<open>r\<close>
  when every record up to \<open>i\<close> ties with its predecessor, otherwise the position of the
  last record up to \<open>i\<close> that does not.
\<close>

lemma ranked_from_nth:
  "i < length docs \<Longrightarrow>
   (fst (ranked_from equ n r d docs ! i) = r
      \<and> (\<forall>k\<le>i. equ ((d # docs) ! k) (docs ! k)))
   \<or> (\<exists>j\<le>i. fst (ranked_from equ n r d docs ! i) = n + j + 1
          \<and> \<not> equ ((d # docs) ! j) (docs ! j)
          \<and> (\<forall>k. j < k \<and> k \<le> i \<longrightarrow> equ ((d # docs) ! k) (docs ! k)))"
proof (induction docs arbitrary: n r d i)
  case Nil
  then show ?case by simp
next
  case (Cons doc docs)
  define r' where "r' = (if equ d doc then r else n + 1)"
  have unfold: "ranked_from equ n r d (doc # docs) = (r', doc) # ranked_from equ (n + 1) r' doc docs"
    by (simp add: r'_def Let_def)
  show ?case
  proof (cases i)
    case 0
    then show ?thesis
      by (cases "equ d doc") (simp_all add: unfold r'_def)
  next
    case (Suc i')
    with Cons.prems have i': "i' < length docs" by simp
    from Cons.IH [OF i', of "n + 1" r' doc]
    consider
      (tied) "fst (ranked_from equ (n + 1) r' doc docs ! i') = r'"
             "\<forall>k\<le>i'. equ ((doc # docs) ! k) (docs ! k)"
    | (break) j where "j \<le> i'" "fst (ranked_from equ (n + 1) r' doc docs ! i') = n + 1 + j + 1"
             "\<not> equ ((doc # docs) ! j) (docs ! j)"
             "\<forall>k. j < k \<and> k \<le> i' \<longrightarrow> equ ((doc # docs) ! k) (docs ! k)"
      by blast
    then show ?thesis
    proof cases
      case tied
      have chain: "equ ((d # doc # docs) ! k) ((doc # docs) ! k)" if "0 < k" "k \<le> i" for k
      proof -
        from that obtain k' where "k = Suc k'" "k' \<le> i'"
          using Suc by (cases k) auto
        with tied(2) show ?thesis by simp
      qed
      show ?thesis
      proof (cases "equ d doc")
        case True
        have "\<forall>k\<le>i. equ ((d # doc # docs) ! k) ((doc # docs) ! k)"
        proof (intro allI impI)
          fix k assume "k \<le> i"
          then show "equ ((d # doc # docs) ! k) ((doc # docs) ! k)"
            using chain [of k] True by (cases k) auto
        qed
        moreover from tied(1) True have "fst (ranked_from equ n r d (doc # docs) ! i) = r"
          by (simp add: unfold Suc r'_def)
        ultimately show ?thesis by blast
      next
        case False
        from tied(1) False have "fst (ranked_from equ n r d (doc # docs) ! i) = n + 0 + 1"
          by (simp add: unfold Suc r'_def)
        moreover from False have "\<not> equ ((d # doc # docs) ! 0) ((doc # docs) ! 0)"
          by simp
        moreover have "\<forall>k. 0 < k \<and> k \<le> i \<longrightarrow> equ ((d # doc # docs) ! k) ((doc # docs) ! k)"
          using chain by blast
        ultimately show ?thesis by blast
      qed
    next
      case break
      have "Suc j \<le> i" using break(1) Suc by simp
      moreover from break(2) have "fst (ranked_from equ n r d (doc # docs) ! i) = n + Suc j + 1"
        unfolding unfold Suc by simp
      moreover from break(3) have "\<not> equ ((d # doc # docs) ! Suc j) ((doc # docs) ! Suc j)"
        by simp
      moreover have "\<forall>k. Suc j < k \<and> k \<le> i \<longrightarrow> equ ((d # doc # docs) ! k) ((doc # docs) ! k)"
      proof (intro allI impI)
        fix k assume k: "Suc j < k \<and> k \<le> i"
        then obtain k' where "k = Suc k'" "j < k'" "k' \<le> i'"
          using Suc by (cases k) auto
        with break(4) show "equ ((d # doc # docs) ! k) ((doc # docs) ! k)" by simp
      qed
      ultimately show ?thesis by blast
    qed
  qed
qed

text \<open>
  The same for \<open>ranked\<close>: the rank of the record at index \<open>i\<close> is the 1-based position of
  the first record \<open>j\<close> of its run, the run being closed under ties of adjacent records
  and not extendable to the left.
\<close>

lemma ranked_nth:
  assumes "i < length docs"
  shows "\<exists>j\<le>i. fst (ranked docs equ ! i) = Suc j
           \<and> (j = 0 \<or> \<not> equ (docs ! (j - 1)) (docs ! j))
           \<and> (\<forall>k. j \<le> k \<and> k < i \<longrightarrow> equ (docs ! k) (docs ! Suc k))"
proof (cases docs)
  case Nil
  with assms show ?thesis by simp
next
  case (Cons d ds)
  show ?thesis
  proof (cases i)
    case 0
    with Cons show ?thesis by simp
  next
    case (Suc i')
    with assms Cons have i': "i' < length ds" by simp
    from ranked_from_nth [OF i', of equ 1 1 d]
    consider
      (tied) "fst (ranked_from equ 1 1 d ds ! i') = 1" "\<forall>k\<le>i'. equ ((d # ds) ! k) (ds ! k)"
    | (break) j where "j \<le> i'" "fst (ranked_from equ 1 1 d ds ! i') = 1 + j + 1"
             "\<not> equ ((d # ds) ! j) (ds ! j)"
             "\<forall>k. j < k \<and> k \<le> i' \<longrightarrow> equ ((d # ds) ! k) (ds ! k)"
      by blast
    then show ?thesis
    proof cases
      case tied
      have "fst (ranked docs equ ! i) = Suc 0"
        using tied(1) by (simp add: Cons Suc)
      moreover have "\<forall>k. 0 \<le> k \<and> k < i \<longrightarrow> equ (docs ! k) (docs ! Suc k)"
        using tied(2) by (simp add: Cons Suc)
      ultimately show ?thesis by blast
    next
      case break
      have "Suc j \<le> i" using break(1) Suc by simp
      moreover have "fst (ranked docs equ ! i) = Suc (Suc j)"
        using break(2) by (simp add: Cons Suc)
      moreover have "\<not> equ (docs ! (Suc j - 1)) (docs ! Suc j)"
        using break(3) by (simp add: Cons)
      moreover have "\<forall>k. Suc j \<le> k \<and> k < i \<longrightarrow> equ (docs ! k) (docs ! Suc k)"
        using break(4) by (simp add: Cons Suc less_eq_Suc_le)
      ultimately show ?thesis by blast
    qed
  qed
qed


lemma chain_to_end:
  fixes f :: "nat \<Rightarrow> 'b"
  assumes "\<forall>k. j \<le> k \<and> k < i \<longrightarrow> f k = f (Suc k)" "j \<le> k" "k \<le> i"
  shows "f k = f i"
  using assms(3,1,2)
proof (induction rule: inc_induct)
  case base
  show ?case by simp
next
  case (step m)
  then have "f m = f (Suc m)" by simp
  also have "f (Suc m) = f i" using step by simp
  finally show ?case .
qed

lemma score_tie_numeric:
  "ts_score a = Some (Num x) \<Longrightarrow> ts_score b = Some (Num y) \<Longrightarrow>
   score_tie a b \<longleftrightarrow> ts_score a = ts_score b"
  by (simp add: score_tie_def)

text \<open>
  Claim C3.  For status records with numeric scores, \<open>rank\<close> keeps the records in their
  order and gives the record at index \<open>i\<close> the rank \<open>j + 1\<close>, where \<open>j\<close> is the index of
  the first record of the maximal run of adjacent equal-score records that contains \<open>i\<close>:
  all records from \<open>j\<close> to \<open>i\<close> have the score of record \<open>i\<close>, and the record before \<open>j\<close>,
  if any, has another score.  So a cluster of \<open>k\<close> tied records shares the 1-based
  position of its first member and the next rank is \<open>k\<close> higher.  Only the score enters
  the comparison.
\<close>

theorem acm_rank_competition:
  assumes numeric: "\<forall>d\<in>set tsdocs. \<exists>x. ts_score d = Some (Num x)"
  shows "map snd (acm_rank tsdocs) = tsdocs
       \<and> (\<forall>i<length tsdocs. \<exists>j\<le>i.
             fst (acm_rank tsdocs ! i) = Suc j
           \<and> (\<forall>k. j \<le> k \<and> k \<le> i \<longrightarrow> ts_score (tsdocs ! k) = ts_score (tsdocs ! i))
           \<and> (j = 0 \<or> ts_score (tsdocs ! (j - 1)) \<noteq> ts_score (tsdocs ! i)))"
proof (intro conjI allI impI)
  show "map snd (acm_rank tsdocs) = tsdocs"
    by (simp add: acm_rank_def snd_ranked)
next
  fix i assume i: "i < length tsdocs"
  have tie: "score_tie (tsdocs ! a) (tsdocs ! b) \<longleftrightarrow> ts_score (tsdocs ! a) = ts_score (tsdocs ! b)"
    if "a < length tsdocs" "b < length tsdocs" for a b
  proof -
    from that numeric obtain x y where "ts_score (tsdocs ! a) = Some (Num x)"
      "ts_score (tsdocs ! b) = Some (Num y)"
      by (metis nth_mem)
    then show ?thesis by (rule score_tie_numeric)
  qed
  from ranked_nth [OF i, of score_tie]
  obtain j where j: "j \<le> i" "fst (ranked tsdocs score_tie ! i) = Suc j"
    and left: "j = 0 \<or> \<not> score_tie (tsdocs ! (j - 1)) (tsdocs ! j)"
    and run: "\<forall>k. j \<le> k \<and> k < i \<longrightarrow> score_tie (tsdocs ! k) (tsdocs ! Suc k)"
    by blast
  have adj: "\<forall>k. j \<le> k \<and> k < i \<longrightarrow> ts_score (tsdocs ! k) = ts_score (tsdocs ! Suc k)"
    using run tie i by auto
  have same: "ts_score (tsdocs ! k) = ts_score (tsdocs ! i)" if "j \<le> k" "k \<le> i" for k
    using chain_to_end [of j i "\<lambda>k. ts_score (tsdocs ! k)" k] adj that by simp
  have edge: "j = 0 \<or> ts_score (tsdocs ! (j - 1)) \<noteq> ts_score (tsdocs ! i)"
  proof (cases "j = 0")
    case True
    then show ?thesis by simp
  next
    case False
    with left have "\<not> score_tie (tsdocs ! (j - 1)) (tsdocs ! j)" by simp
    moreover have "j - 1 < length tsdocs" "j < length tsdocs" using j(1) i by simp_all
    ultimately have "ts_score (tsdocs ! (j - 1)) \<noteq> ts_score (tsdocs ! j)"
      using tie by blast
    with same [of j] j(1) show ?thesis by simp
  qed
  from j same edge
  show "\<exists>j\<le>i. fst (acm_rank tsdocs ! i) = Suc j
           \<and> (\<forall>k. j \<le> k \<and> k \<le> i \<longrightarrow> ts_score (tsdocs ! k) = ts_score (tsdocs ! i))
           \<and> (j = 0 \<or> ts_score (tsdocs ! (j - 1)) \<noteq> ts_score (tsdocs ! i))"
    unfolding acm_rank_def by blast
qed

text \<open>
  The example of the spec: the scores 100, 100, 80, 80, 80, 50 get the ranks 1, 1, 3, 3, 3,
  6, although the total times inside each tie differ.
\<close>

theorem acm_rank_competition_witness:
  "map fst (acm_rank rank_example) = [1, 1, 3, 3, 3, 6]
   \<and> map snd (acm_rank rank_example) = rank_example"
proof -
  have numeric: "\<forall>d\<in>set rank_example. \<exists>x. ts_score d = Some (Num x)"
    by (simp add: rank_example_def scored_status_def)
  have "map fst (acm_rank rank_example) = [1, 1, 3, 3, 3, 6]"
    by (simp add: acm_rank_def rank_example_def scored_status_def fresh_status_def score_tie_def)
  with acm_rank_competition [OF numeric] show ?thesis by simp
qed

lemma ranked_from_all_tied:
  "\<forall>a\<in>set (d # docs). \<forall>b\<in>set (d # docs). equ a b \<Longrightarrow>
   map fst (ranked_from equ n r d docs) = replicate (length docs) r"
  by (induction docs arbitrary: n d) (simp_all add: Let_def)

lemma ranked_all_tied:
  "\<forall>a\<in>set docs. \<forall>b\<in>set docs. equ a b \<Longrightarrow> map fst (ranked docs equ) = replicate (length docs) 1"
  by (cases docs) (simp_all add: ranked_from_all_tied)

lemma apply_acm_stats_score:
  "ts_score (apply_set \<lparr> set_journal = jnl, set_stats = AcmStats st \<rparr> d) = ts_score d"
  by (simp add: apply_set_def)

text \<open>
  Claim C10.  \<open>acm.stat\<close> returns \<open>accept\<close>, \<open>time\<close> and \<open>detail\<close> and no \<open>score\<close>,
  so writing its result leaves the score of a status record absent.  For status records
  without a score whose statistics are those of \<open>acm.stat\<close> on any journals, the tie
  predicate \<open>a.score === b.score\<close> of \<open>acm.rank\<close> holds for every pair, and every record
  gets rank 1.
\<close>

theorem acm_rank_without_score:
  assumes absent: "\<forall>d\<in>set docs. ts_score d = None"
  shows "let tsdocs = map (\<lambda>d. apply_set \<lparr> set_journal = jn d,
                                          set_stats = AcmStats (acm_stat t (jn d)) \<rparr> d) docs
         in (\<forall>a\<in>set tsdocs. \<forall>b\<in>set tsdocs. score_tie a b)
          \<and> map fst (acm_rank tsdocs) = replicate (length docs) 1
          \<and> map snd (acm_rank tsdocs) = tsdocs"
proof -
  define tsdocs where "tsdocs = map (\<lambda>d. apply_set \<lparr> set_journal = jn d,
                                          set_stats = AcmStats (acm_stat t (jn d)) \<rparr> d) docs"
  have none: "\<forall>a\<in>set tsdocs. ts_score a = None"
    using absent by (auto simp: tsdocs_def apply_acm_stats_score)
  then have ties: "\<forall>a\<in>set tsdocs. \<forall>b\<in>set tsdocs. score_tie a b"
    by (simp add: score_tie_def)
  then have "map fst (acm_rank tsdocs) = replicate (length tsdocs) 1"
    unfolding acm_rank_def by (rule ranked_all_tied)
  moreover have "length tsdocs = length docs"
    by (simp add: tsdocs_def)
  moreover have "map snd (acm_rank tsdocs) = tsdocs"
    by (simp add: acm_rank_def snd_ranked)
  ultimately show ?thesis
    using ties unfolding Let_def tsdocs_def [symmetric] by simp
qed

text \<open>
  Three participants with 1, 0 and 0 accepted problems all get rank 1.
\<close>

theorem acm_rank_without_score_witness:
  "map fst (acm_rank (map (\<lambda>d. apply_set \<lparr> set_journal = acm_journal_example d,
                 set_stats = AcmStats (acm_stat acm_example (acm_journal_example d)) \<rparr> d)
               [fresh_status 1, fresh_status 2, fresh_status 3])) = [1, 1, 1]
   \<and> map (\<lambda>d. acm_accept (acm_stat acm_example (acm_journal_example d)))
        [fresh_status 1, fresh_status 2, fresh_status 3] = [Num 1, Num 0, Num 0]"
proof -
  have absent: "\<forall>d\<in>set [fresh_status 1, fresh_status 2, fresh_status 3]. ts_score d = None"
    by (simp add: fresh_status_def)
  have "map (\<lambda>d. acm_accept (acm_stat acm_example (acm_journal_example d)))
        [fresh_status 1, fresh_status 2, fresh_status 3] = [Num 1, Num 0, Num 0]"
    by (simp add: acm_unfold acm_journal_example_def fresh_status_def)
  with acm_rank_without_score [OF absent, of acm_journal_example acm_example]
  show ?thesis by (simp add: Let_def numeral_3_eq_3)
qed

section \<open>Properties of \<open>updateStatus\<close>\<close>

text \<open>
  The steps of \<open>updateStatus\<close>, whatever the store operations are.  When the contest
  resolves, it first appends the journal entry \<open>{ rid, pid, accept, score }\<close> with
  \<open>revPushStatus\<close>.  If the returned status record is not attended (flag absent or
  zero) it raises the not-attended error; the append has happened, nothing else is
  written.  Otherwise it sorts the full journal of the returned record by creation instant
  (ascending, a permutation of the journal) and calls the rule's \<open>stat\<close> on it: when
  \<open>stat\<close> returns, journal and statistics go to \<open>revSetStatus\<close> together with the
  revision of the returned record; when \<open>stat\<close> throws, the exception propagates and
  nothing is written after the append.
\<close>

theorem updateStatus_spec:
  assumes contest: "document_get s tid = Some t"
    and push: "revPushStatus s tid u \<lparr> rid = r, pid = p, accept = acc, score = sc \<rparr> = (d, s1)"
  shows "(not_attended d \<longrightarrow>
            updateStatus document_get revPushStatus revSetStatus s tid u r p acc sc
              = (Inl ContestNotAttendedError, s1))
       \<and> (\<not> not_attended d \<longrightarrow> (\<forall>jnl0. journal d = Some jnl0 \<longrightarrow>
            (\<exists>jnl. getStatusJournal d = Inr jnl
               \<and> sorted (map (\<lambda>j. generationTime (rid j)) jnl) \<and> mset jnl = mset jnl0
               \<and> (\<forall>st. rule_stat t jnl = Inr st \<longrightarrow>
                     updateStatus document_get revPushStatus revSetStatus s tid u r p acc sc
                       = (let (res, s2) = revSetStatus s1 tid u (rev d)
                                            \<lparr> set_journal = jnl, set_stats = st \<rparr>
                          in (Inr res, s2)))
               \<and> (\<forall>e. rule_stat t jnl = Inl e \<longrightarrow>
                     updateStatus document_get revPushStatus revSetStatus s tid u r p acc sc
                       = (Inl e, s1)))))"
proof (intro conjI impI allI)
  assume "not_attended d"
  with contest push
  show "updateStatus document_get revPushStatus revSetStatus s tid u r p acc sc
          = (Inl ContestNotAttendedError, s1)"
    by (simp add: updateStatus_def get_def)
next
  fix jnl0
  assume attended: "\<not> not_attended d" and jnl0: "journal d = Some jnl0"
  define jnl where "jnl = sort_key (\<lambda>j. generationTime (rid j)) jnl0"
  have sj: "getStatusJournal d = Inr jnl"
    using jnl0 by (simp add: getStatusJournal_def jnl_def)
  have "sorted (map (\<lambda>j. generationTime (rid j)) jnl)" "mset jnl = mset jnl0"
    by (simp_all add: jnl_def)
  moreover have "updateStatus document_get revPushStatus revSetStatus s tid u r p acc sc
                   = (let (res, s2) = revSetStatus s1 tid u (rev d)
                                        \<lparr> set_journal = jnl, set_stats = st \<rparr>
                      in (Inr res, s2))" if "rule_stat t jnl = Inr st" for st
    using contest push attended sj that by (simp add: updateStatus_def get_def)
  moreover have "updateStatus document_get revPushStatus revSetStatus s tid u r p acc sc
                   = (Inl e, s1)" if "rule_stat t jnl = Inl e" for e
    using contest push attended sj that by (simp add: updateStatus_def get_def)
  ultimately
  show "\<exists>jnl. getStatusJournal d = Inr jnl
          \<and> sorted (map (\<lambda>j. generationTime (rid j)) jnl) \<and> mset jnl = mset jnl0
          \<and> (\<forall>st. rule_stat t jnl = Inr st \<longrightarrow>
                updateStatus document_get revPushStatus revSetStatus s tid u r p acc sc
                  = (let (res, s2) = revSetStatus s1 tid u (rev d)
                                       \<lparr> set_journal = jnl, set_stats = st \<rparr>
                     in (Inr res, s2)))
          \<and> (\<forall>e. rule_stat t jnl = Inl e \<longrightarrow>
                updateStatus document_get revPushStatus revSetStatus s tid u r p acc sc
                  = (Inl e, s1))"
    using sj by blast
qed


text \<open>
  On the store model the composition has the effect the protocol intends.  For a
  participant who has not attended, the entry is appended and the not-attended error is
  raised; for one who has, the write is accepted, since no other writer intervened: the
  stored record holds the full journal sorted by creation instant, the statistics computed
  from it, and a revision advanced by the append and by the write.
\<close>

lemma status_of_update:
  "status_of (s\<lparr> statuses := (statuses s)((tid, u) \<mapsto> d) \<rparr>) tid u = d"
  by (simp add: status_of_def)

lemma updateStatus_store_not_attended:
  assumes contest: "contests s tid = Some t" and flag: "attend_flag s tid u = 0"
  shows "\<exists>s1. updateStatus document_get_m revPushStatus_m revSetStatus_m s tid u r p acc sc
               = (Inl ContestNotAttendedError, s1)
            \<and> journal (status_of s1 tid u)
               = Some (old_journal s tid u @ [\<lparr> rid = r, pid = p, accept = acc, score = sc \<rparr>])
            \<and> attend_flag s1 tid u = 0"
  using contest flag
  by (auto simp: updateStatus_def get_def document_get_m_def revPushStatus_m_def Let_def
        not_attended_def attend_flag_def status_of_update old_journal_def split: option.splits)

lemma updateStatus_store_attended:
  assumes contest: "contests s tid = Some t" and flag: "0 < attend_flag s tid u"
    and stat: "rule_stat t (sort_key (\<lambda>j. generationTime (rid j))
                 (old_journal s tid u @ [\<lparr> rid = r, pid = p, accept = acc, score = sc \<rparr>])) = Inr st"
  shows "\<exists>d s2. updateStatus document_get_m revPushStatus_m revSetStatus_m s tid u r p acc sc
                 = (Inr (Some d), s2)
            \<and> status_of s2 tid u = d
            \<and> d = (apply_stats st (status_of s tid u))
                    \<lparr> journal := Some (sort_key (\<lambda>j. generationTime (rid j))
                          (old_journal s tid u @ [\<lparr> rid = r, pid = p, accept = acc, score = sc \<rparr>])),
                      rev := rev (status_of s tid u) + 2 \<rparr>"
proof -
  define e where "e = \<lparr> rid = r, pid = p, accept = acc, score = sc \<rparr>"
  define d1 where "d1 = (status_of s tid u)\<lparr> journal := Some (old_journal s tid u @ [e]),
                                              rev := rev (status_of s tid u) + 1 \<rparr>"
  define s1 where "s1 = s\<lparr> statuses := (statuses s)((tid, u) \<mapsto> d1) \<rparr>"
  have push: "revPushStatus_m s tid u e = (d1, s1)"
    by (simp add: revPushStatus_m_def Let_def d1_def s1_def old_journal_def)
  have att: "\<not> not_attended d1"
    using flag by (auto simp: not_attended_def d1_def attend_flag_def split: option.splits)
  have jnl: "getStatusJournal d1 = Inr (sort_key (\<lambda>j. generationTime (rid j)) (old_journal s tid u @ [e]))"
    by (simp add: getStatusJournal_def d1_def)
  have set: "revSetStatus_m s1 tid u (rev d1) upd
               = (Some ((apply_set upd d1)\<lparr> rev := rev d1 + 1 \<rparr>),
                  s1\<lparr> statuses := (statuses s1)((tid, u) \<mapsto> (apply_set upd d1)\<lparr> rev := rev d1 + 1 \<rparr>) \<rparr>)" for upd
    by (simp add: revSetStatus_m_def s1_def Let_def)
  have shape: "(apply_set \<lparr> set_journal = js, set_stats = st \<rparr> d1)\<lparr> rev := rev d1 + 1 \<rparr>
                 = (apply_stats st (status_of s tid u))\<lparr> journal := Some js,
                                                         rev := rev (status_of s tid u) + 2 \<rparr>" for js
    by (cases st) (simp_all add: apply_set_def d1_def)
  from contest push att jnl stat set shape show ?thesis
    by (simp add: updateStatus_def get_def document_get_m_def status_of_update flip: e_def)
qed

section \<open>Properties of \<open>attend\<close>\<close>

lemma attend_flag_update:
  "attend_flag (s\<lparr> statuses := (statuses s)((tid, u) \<mapsto> d) \<rparr>) tid u
     = (case ts_attend d of None \<Rightarrow> 0 | Some n \<Rightarrow> n)"
  by (simp add: attend_flag_def status_of_def)

lemma cappedInc_first:
  "attend_flag s tid u = 0 \<Longrightarrow>
   \<exists>d s1. cappedIncStatus_m s tid u 1 0 1 = (Some d, s1) \<and> attend_flag s1 tid u = 1"
  by (simp add: cappedIncStatus_m_def Let_def attend_flag_update)

lemma cappedInc_again:
  "0 < attend_flag s tid u \<Longrightarrow> cappedIncStatus_m s tid u 1 0 1 = (None, s)"
  by (simp add: cappedIncStatus_m_def)

lemma attend_flag_document_inc:
  "attend_flag (document_inc_m s tid n) tid' u = attend_flag s tid' u"
  by (simp add: document_inc_m_def attend_flag_def status_of_def split: option.splits)

lemma call_step_Calling_first:
  "attend_flag s tid u = 0 \<Longrightarrow>
   \<exists>s1. call_step tid u s Calling = (s1, Incrementing) \<and> attend_flag s1 tid u = 1"
  using cappedInc_first [of s tid u] by (auto simp: call_step_def)

lemma call_step_Calling_again:
  "0 < attend_flag s tid u \<Longrightarrow>
   call_step tid u s Calling = (s, Thrown ContestAlreadyAttendedError)"
  using cappedInc_again [of s tid u] by (simp add: call_step_def)

lemma filter_update_gain:
  "i < length xs \<Longrightarrow> \<not> P (xs ! i) \<Longrightarrow> P x \<Longrightarrow>
   length (filter P (xs[i := x])) = Suc (length (filter P xs))"
proof (induction xs arbitrary: i)
  case Nil
  then show ?case by simp
next
  case (Cons y ys)
  then show ?case by (cases i) auto
qed

lemma filter_update_same:
  "i < length xs \<Longrightarrow> P (xs ! i) = P x \<Longrightarrow>
   length (filter P (xs[i := x])) = length (filter P xs)"
proof (induction xs arbitrary: i)
  case Nil
  then show ?case by simp
next
  case (Cons y ys)
  then show ?case by (cases i) auto
qed

lemma calls_inv_step:
  assumes inv: "calls_inv tid u n cfg"
  shows "calls_inv tid u n (sched_step tid u cfg i)"
proof -
  obtain s cs where cfg: "cfg = (s, cs)" by (cases cfg)
  from inv cfg have len: "length cs = n"
    and cnt: "attend_flag s tid u = length (filter succeeded cs)"
    and le: "attend_flag s tid u \<le> 1"
    and thrown: "\<forall>c\<in>set cs. \<forall>e. c = Thrown e \<longrightarrow> e = ContestAlreadyAttendedError \<and> attend_flag s tid u = 1"
    by (auto simp: calls_inv_def)
  show ?thesis
  proof (cases "i < length cs")
    case False
    with inv cfg show ?thesis by (simp add: sched_step_def)
  next
    case True
    show ?thesis
    proof (cases "cs ! i")
      case Calling
      show ?thesis
      proof (cases "attend_flag s tid u = 0")
        case zero: True
        from call_step_Calling_first [OF zero] obtain s1
          where step: "call_step tid u s Calling = (s1, Incrementing)" and one: "attend_flag s1 tid u = 1"
          by blast
        have res: "sched_step tid u cfg i = (s1, cs[i := Incrementing])"
          using True Calling step by (simp add: sched_step_def cfg)
        have "length (filter succeeded (cs[i := Incrementing])) = Suc (length (filter succeeded cs))"
          using True Calling by (intro filter_update_gain) (simp_all add: succeeded_def)
        moreover have "\<forall>c\<in>set (cs[i := Incrementing]). \<forall>e. c = Thrown e \<longrightarrow>
                         e = ContestAlreadyAttendedError \<and> attend_flag s1 tid u = 1"
          using thrown one by (auto dest!: set_update_subset_insert [THEN subsetD])
        ultimately show ?thesis
          using len cnt zero one by (simp add: res calls_inv_def)
      next
        case pos: False
        then have "0 < attend_flag s tid u" by simp
        from call_step_Calling_again [OF this]
        have res: "sched_step tid u cfg i = (s, cs[i := Thrown ContestAlreadyAttendedError])"
          using True Calling by (simp add: sched_step_def cfg)
        have "length (filter succeeded (cs[i := Thrown ContestAlreadyAttendedError]))
                = length (filter succeeded cs)"
          using True Calling by (intro filter_update_same) (simp_all add: succeeded_def)
        moreover from pos le have "attend_flag s tid u = 1" by simp
        then have "\<forall>c\<in>set (cs[i := Thrown ContestAlreadyAttendedError]). \<forall>e. c = Thrown e \<longrightarrow>
                         e = ContestAlreadyAttendedError \<and> attend_flag s tid u = 1"
          using thrown by (auto dest!: set_update_subset_insert [THEN subsetD])
        ultimately show ?thesis
          using len cnt le by (simp add: res calls_inv_def)
      qed
    next
      case Incrementing
      have res: "sched_step tid u cfg i = (document_inc_m s tid 1, cs[i := Returned])"
        using True Incrementing by (simp add: sched_step_def cfg call_step_def)
      have "length (filter succeeded (cs[i := Returned])) = length (filter succeeded cs)"
        using True Incrementing by (intro filter_update_same) (simp_all add: succeeded_def)
      moreover have "\<forall>c\<in>set (cs[i := Returned]). \<forall>e. c = Thrown e \<longrightarrow>
                       e = ContestAlreadyAttendedError \<and> attend_flag s tid u = 1"
        using thrown by (auto dest!: set_update_subset_insert [THEN subsetD])
      ultimately show ?thesis
        using len cnt le by (simp add: res calls_inv_def attend_flag_document_inc)
    next
      case Returned
      then have "sched_step tid u cfg i = cfg"
        using True by (simp add: sched_step_def cfg call_step_def) (metis list_update_id)
      with inv show ?thesis by simp
    next
      case (Thrown e)
      then have "sched_step tid u cfg i = cfg"
        using True by (simp add: sched_step_def cfg call_step_def) (metis list_update_id)
      with inv show ?thesis by simp
    qed
  qed
qed

lemma calls_inv_run:
  "calls_inv tid u n cfg \<Longrightarrow> calls_inv tid u n (run_calls tid u sched cfg)"
  unfolding run_calls_def
  by (induction sched arbitrary: cfg) (simp_all add: calls_inv_step)

lemma calls_inv_init:
  "attend_flag s tid u = 0 \<Longrightarrow> calls_inv tid u n (s, replicate n Calling)"
  by (simp add: calls_inv_def succeeded_def)

lemma calls_inv_finished:
  assumes inv: "calls_inv tid u n (s, cs)" and fin: "\<forall>c\<in>set cs. finished c" and n: "0 < n"
  shows "length (filter succeeded cs) = 1"
proof -
  from inv have len: "length cs = n"
    and cnt: "attend_flag s tid u = length (filter succeeded cs)"
    and le: "attend_flag s tid u \<le> 1"
    and thrown: "\<forall>c\<in>set cs. \<forall>e. c = Thrown e \<longrightarrow> attend_flag s tid u = 1"
    by (auto simp: calls_inv_def)
  from len n obtain c where c: "c \<in> set cs" by (cases cs) auto
  with fin have "finished c" by simp
  then consider "c = Returned" | e where "c = Thrown e"
    by (cases c) (simp_all add: finished_def)
  then show ?thesis
  proof cases
    case 1
    with c have "filter succeeded cs \<noteq> []"
      by (auto simp: filter_empty_conv succeeded_def)
    then have "0 < length (filter succeeded cs)" by simp
    with cnt le show ?thesis by linarith
  next
    case 2
    with c thrown cnt show ?thesis by auto
  qed
qed


text \<open>
  Claim C7.  With the capped increment of the store model, \<open>attend\<close> on a status
  record whose attendance flag is 0 succeeds and leaves the flag at 1, and \<open>attend\<close> on a
  record whose flag is positive fails with the already-attended error and changes nothing.
  For any number of concurrent calls for the same contest and participant and any
  interleaving of their store operations, the flag equals the number of calls that passed
  the capped increment and never exceeds 1, every failed call has failed with the
  already-attended error, and once all calls have finished exactly one has succeeded and
  all the others have failed.
\<close>

theorem attend_exactly_once:
  assumes first: "attend_flag s tid u = 0"
  shows "fst (attend cappedIncStatus_m document_inc_m s tid u) = Inr ()
       \<and> attend_flag (snd (attend cappedIncStatus_m document_inc_m s tid u)) tid u = 1
       \<and> (\<forall>s'. 0 < attend_flag s' tid u \<longrightarrow>
             attend cappedIncStatus_m document_inc_m s' tid u = (Inl ContestAlreadyAttendedError, s'))
       \<and> (\<forall>sched n.
             let (s', cs) = run_calls tid u sched (s, replicate n Calling)
             in attend_flag s' tid u = length (filter succeeded cs)
              \<and> attend_flag s' tid u \<le> 1
              \<and> (\<forall>c\<in>set cs. \<forall>e. c = Thrown e \<longrightarrow> e = ContestAlreadyAttendedError)
              \<and> ((\<forall>c\<in>set cs. finished c) \<and> 0 < n \<longrightarrow>
                   length (filter succeeded cs) = 1
                 \<and> length (filter (\<lambda>c. c = Thrown ContestAlreadyAttendedError) cs) = n - 1))"
proof (intro conjI allI impI)
  from cappedInc_first [OF first] obtain d s1
    where capped: "cappedIncStatus_m s tid u 1 0 1 = (Some d, s1)" and one: "attend_flag s1 tid u = 1"
    by blast
  from capped show "fst (attend cappedIncStatus_m document_inc_m s tid u) = Inr ()"
    by (simp add: attend_def)
  from capped one show "attend_flag (snd (attend cappedIncStatus_m document_inc_m s tid u)) tid u = 1"
    by (simp add: attend_def attend_flag_document_inc)
next
  fix s' :: store
  assume "0 < attend_flag s' tid u"
  from cappedInc_again [OF this]
  show "attend cappedIncStatus_m document_inc_m s' tid u = (Inl ContestAlreadyAttendedError, s')"
    by (simp add: attend_def)
next
  fix sched n
  obtain s' cs where run: "run_calls tid u sched (s, replicate n Calling) = (s', cs)"
    by (cases "run_calls tid u sched (s, replicate n Calling)")
  have inv: "calls_inv tid u n (s', cs)"
    using calls_inv_run [OF calls_inv_init [OF first], of n sched] run by simp
  then have len: "length cs = n"
    and cnt: "attend_flag s' tid u = length (filter succeeded cs)"
    and le: "attend_flag s' tid u \<le> 1"
    and thrown: "\<forall>c\<in>set cs. \<forall>e. c = Thrown e \<longrightarrow> e = ContestAlreadyAttendedError"
    by (auto simp: calls_inv_def)
  have complete: "length (filter succeeded cs) = 1
            \<and> length (filter (\<lambda>c. c = Thrown ContestAlreadyAttendedError) cs) = n - 1"
    if fin: "\<forall>c\<in>set cs. finished c" and n: "0 < n"
  proof -
    have won: "length (filter succeeded cs) = 1"
      using inv fin n by (rule calls_inv_finished)
    have "filter (\<lambda>c. c = Thrown ContestAlreadyAttendedError) cs = filter (\<lambda>c. \<not> succeeded c) cs"
    proof (rule filter_cong [OF refl])
      fix c assume c: "c \<in> set cs"
      with fin have fc: "finished c" by simp
      from c thrown have th: "\<forall>e. c = Thrown e \<longrightarrow> e = ContestAlreadyAttendedError" by blast
      show "(c = Thrown ContestAlreadyAttendedError) = (\<not> succeeded c)"
      proof (cases c)
        case (Thrown e)
        with th show ?thesis by (simp add: succeeded_def)
      qed (use fc in \<open>simp_all add: finished_def succeeded_def\<close>)
    qed
    then have "length (filter (\<lambda>c. c = Thrown ContestAlreadyAttendedError) cs)
                 = length cs - length (filter succeeded cs)"
      using sum_length_filter_compl [of succeeded cs] by simp
    with won len show ?thesis by simp
  qed
  from cnt le thrown complete
  show "let (s', cs) = run_calls tid u sched (s, replicate n Calling)
        in attend_flag s' tid u = length (filter succeeded cs)
         \<and> attend_flag s' tid u \<le> 1
         \<and> (\<forall>c\<in>set cs. \<forall>e. c = Thrown e \<longrightarrow> e = ContestAlreadyAttendedError)
         \<and> ((\<forall>c\<in>set cs. finished c) \<and> 0 < n \<longrightarrow>
              length (filter succeeded cs) = 1
            \<and> length (filter (\<lambda>c. c = Thrown ContestAlreadyAttendedError) cs) = n - 1)"
    by (simp add: run)
qed

text \<open>One call scheduled at both of its steps does what \<open>attend\<close> does.\<close>

lemma call_steps_are_attend:
  "run_calls tid u [0, 0] (s, [Calling]) =
     (snd (attend cappedIncStatus_m document_inc_m s tid u),
      [case fst (attend cappedIncStatus_m document_inc_m s tid u) of
         Inr _ \<Rightarrow> Returned | Inl e \<Rightarrow> Thrown e])"
  by (cases "cappedIncStatus_m s tid u 1 0 1")
     (auto simp: run_calls_def sched_step_def call_step_def attend_def split: option.splits)


section \<open>Evaluations on the example store\<close>

lemmas store_unfold = store_example_def document_get_m_def revPushStatus_m_def revSetStatus_m_def
  cappedIncStatus_m_def document_inc_m_def status_of_def new_status_def attend_flag_def
  fresh_status_def

text \<open>
  Participant 9 has no status record for contest 1: the first \<open>attend\<close> succeeds, the
  second fails, and of three interleaved calls the one scheduled first succeeds.
\<close>

theorem attend_exactly_once_witness:
  "fst (attend cappedIncStatus_m document_inc_m store_example 1 9) = Inr ()
   \<and> attend_flag (snd (attend cappedIncStatus_m document_inc_m store_example 1 9)) 1 9 = 1
   \<and> attend cappedIncStatus_m document_inc_m
        (snd (attend cappedIncStatus_m document_inc_m store_example 1 9)) 1 9
      = (Inl ContestAlreadyAttendedError, snd (attend cappedIncStatus_m document_inc_m store_example 1 9))
   \<and> snd (run_calls 1 9 [2, 0, 1, 2, 0, 1] (store_example, replicate 3 Calling))
      = [Thrown ContestAlreadyAttendedError, Thrown ContestAlreadyAttendedError, Returned]
   \<and> attend_flag (fst (run_calls 1 9 [2, 0, 1, 2, 0, 1] (store_example, replicate 3 Calling))) 1 9 = 1"
proof -
  have first: "attend_flag store_example 1 9 = 0"
    by (simp add: store_unfold)
  note inst = attend_exactly_once [OF first]
  from inst have a: "fst (attend cappedIncStatus_m document_inc_m store_example 1 9) = Inr ()"
    and b: "attend_flag (snd (attend cappedIncStatus_m document_inc_m store_example 1 9)) 1 9 = 1"
    and c: "\<forall>s'. 0 < attend_flag s' 1 9 \<longrightarrow>
             attend cappedIncStatus_m document_inc_m s' 1 9 = (Inl ContestAlreadyAttendedError, s')"
    by blast+
  from b c have again: "attend cappedIncStatus_m document_inc_m
        (snd (attend cappedIncStatus_m document_inc_m store_example 1 9)) 1 9
      = (Inl ContestAlreadyAttendedError, snd (attend cappedIncStatus_m document_inc_m store_example 1 9))"
    by simp
  have run: "snd (run_calls 1 9 [2, 0, 1, 2, 0, 1] (store_example, replicate 3 Calling))
      = [Thrown ContestAlreadyAttendedError, Thrown ContestAlreadyAttendedError, Returned]"
    by (simp add: run_calls_def sched_step_def call_step_def store_unfold numeral_3_eq_3 Let_def)
  from inst have "let (s', cs) = run_calls 1 9 [2, 0, 1, 2, 0, 1] (store_example, replicate 3 Calling)
                 in attend_flag s' 1 9 = length (filter succeeded cs)"
    by (auto simp: Let_def split: prod.splits)
  with run have flag: "attend_flag (fst (run_calls 1 9 [2, 0, 1, 2, 0, 1] (store_example, replicate 3 Calling))) 1 9 = 1"
    by (auto simp: succeeded_def split: prod.splits)
  from a b again run flag show ?thesis by blast
qed

text \<open>
  On the example store, a submission of participant 8, who has not attended contest 1,
  raises the not-attended error after the entry has been appended; a submission of
  participant 7 created at second 650 is sorted before the journal's entry of second 700,
  and the statistics and the revision are written.
\<close>

theorem updateStatus_spec_witness:
  "fst (updateStatus document_get_m revPushStatus_m revSetStatus_m store_example 1 8
          \<lparr> generationTime = 600, rest = 0 \<rparr> 1 True 100) = Inl ContestNotAttendedError
   \<and> journal (status_of (snd (updateStatus document_get_m revPushStatus_m revSetStatus_m store_example 1 8
          \<lparr> generationTime = 600, rest = 0 \<rparr> 1 True 100)) 1 8) = Some [entry_at 600 1 True 100]
   \<and> fst (updateStatus document_get_m revPushStatus_m revSetStatus_m store_example 1 7
          \<lparr> generationTime = 650, rest = 0 \<rparr> 1 False 0)
      = Inr (Some (status_of (snd (updateStatus document_get_m revPushStatus_m revSetStatus_m
                                     store_example 1 7 \<lparr> generationTime = 650, rest = 0 \<rparr> 1 False 0)) 1 7))
   \<and> status_of (snd (updateStatus document_get_m revPushStatus_m revSetStatus_m
                        store_example 1 7 \<lparr> generationTime = 650, rest = 0 \<rparr> 1 False 0)) 1 7
      = (fresh_status 7)\<lparr> rev := 3,
           journal := Some [entry_at 650 1 False 0, entry_at 700 1 False 0],
           ts_accept := Some (Num 0), ts_time := Some (Num 0),
           ts_detail := Some (AcmDetail [\<lparr> rid = \<lparr> generationTime = 700, rest = 0 \<rparr>, pid = 1,
                                           accept = False, score = 0, naccept = Some 2,
                                           time = Num ((700 - 500) + 40 * 60) \<rparr>]) \<rparr>"
proof -
  have contest: "document_get_m store_example 1 = Some acm_example"
    by (simp add: store_unfold)
  have push: "revPushStatus_m store_example 1 8
                \<lparr> rid = \<lparr> generationTime = 600, rest = 0 \<rparr>, pid = 1, accept = True, score = 100 \<rparr>
              = (fst (revPushStatus_m store_example 1 8 (entry_at 600 1 True 100)),
                 snd (revPushStatus_m store_example 1 8 (entry_at 600 1 True 100)))"
    by (simp add: entry_at_def)
  have absent: "not_attended (fst (revPushStatus_m store_example 1 8 (entry_at 600 1 True 100)))"
    by (simp add: not_attended_def store_unfold Let_def)
  from updateStatus_spec [where document_get = document_get_m and revPushStatus = revPushStatus_m
      and revSetStatus = revSetStatus_m and s = store_example and tid = 1 and u = 8, OF contest push]
    absent
  have err: "updateStatus document_get_m revPushStatus_m revSetStatus_m store_example 1 8
               \<lparr> generationTime = 600, rest = 0 \<rparr> 1 True 100
             = (Inl ContestNotAttendedError, snd (revPushStatus_m store_example 1 8 (entry_at 600 1 True 100)))"
    by blast
  have appended: "journal (status_of (snd (revPushStatus_m store_example 1 8 (entry_at 600 1 True 100))) 1 8)
                    = Some [entry_at 600 1 True 100]"
    by (simp add: store_unfold Let_def)
  have seven: "fst (updateStatus document_get_m revPushStatus_m revSetStatus_m store_example 1 7
                 \<lparr> generationTime = 650, rest = 0 \<rparr> 1 False 0)
               = Inr (Some ((fresh_status 7)\<lparr> rev := 3,
                     journal := Some [entry_at 650 1 False 0, entry_at 700 1 False 0],
                     ts_accept := Some (Num 0), ts_time := Some (Num 0),
                     ts_detail := Some (AcmDetail [\<lparr> rid = \<lparr> generationTime = 700, rest = 0 \<rparr>, pid = 1,
                                           accept = False, score = 0, naccept = Some 2,
                                           time = Num ((700 - 500) + 40 * 60) \<rparr>]) \<rparr>))"
    by (simp add: updateStatus_def get_def not_attended_def getStatusJournal_def rule_stat_def
          apply_set_def store_unfold acm_unfold Let_def)
  have stored: "status_of (snd (updateStatus document_get_m revPushStatus_m revSetStatus_m
                        store_example 1 7 \<lparr> generationTime = 650, rest = 0 \<rparr> 1 False 0)) 1 7
      = (fresh_status 7)\<lparr> rev := 3,
           journal := Some [entry_at 650 1 False 0, entry_at 700 1 False 0],
           ts_accept := Some (Num 0), ts_time := Some (Num 0),
           ts_detail := Some (AcmDetail [\<lparr> rid = \<lparr> generationTime = 700, rest = 0 \<rparr>, pid = 1,
                                           accept = False, score = 0, naccept = Some 2,
                                           time = Num ((700 - 500) + 40 * 60) \<rparr>]) \<rparr>"
    by (simp add: updateStatus_def get_def not_attended_def getStatusJournal_def rule_stat_def
          apply_set_def store_unfold acm_unfold Let_def)
  from err appended seven stored show ?thesis by simp
qed

text \<open>
  Claim C8.  The claim has \<open>updateStatus\<close>, for every contest, append the entry,
  recompute the rule's statistics from the full journal and write them.  For an assignment
  the recomputation is \<open>homework.stat\<close>, which throws a \<open>TypeError\<close> as soon as an
  entry is effective (claim C6).  Participant 7 has attended the assignment 2 and submits
  an accepted solution of problem 0 at second 600: \<open>updateStatus\<close> appends the entry
  and throws; the stored record has the new journal and the revision of the append, and no
  statistics.
\<close>

theorem updateStatus_homework_throws:
  "fst (updateStatus document_get_m revPushStatus_m revSetStatus_m store_homework_example 2 7
          \<lparr> generationTime = 600, rest = 0 \<rparr> 0 True 100) = Inl TypeError
   \<and> status_of (snd (updateStatus document_get_m revPushStatus_m revSetStatus_m store_homework_example 2 7
          \<lparr> generationTime = 600, rest = 0 \<rparr> 0 True 100)) 2 7
      = (fresh_status 7)\<lparr> rev := 1, journal := Some [entry_at 600 0 True 100] \<rparr>"
  by (simp add: updateStatus_def get_def not_attended_def getStatusJournal_def rule_stat_def
        store_homework_example_def store_unfold hw_unfold Let_def)

section \<open>Properties of the scoreboard renderers\<close>






























end
